theory Spec2Isabelle
  imports Main "HOL-Library.Word"
begin

unbundle bit_operations_syntax

chapter \<open>The embedding of the rendering engine\<close>

section \<open>Python strings\<close>

text \<open>
  A Python \<open>str\<close> is a sequence of Unicode code points; \<open>len\<close> counts code points and
  \<open>ord\<close> reads one. The model is a list of code points, each a natural number
  (\<open>''ab''\<close> of the source is \<open>[97, 98]\<close>).
\<close>

type_synonym pystr = "nat list"

text \<open>
  \<open>str.lower\<close> is a builtin of the language, not code of the repository. It is modelled on
  the ASCII letters \<open>A\<close>..\<open>Z\<close>; every other code point is kept. On such strings it keeps
  the length, which is what lets the source index \<open>query_lower\<close> with a bound taken
  from \<open>len(query)\<close>.
\<close>

definition lower_cp :: "nat \<Rightarrow> nat" where
  "lower_cp c = (if 65 \<le> c \<and> c \<le> 90 then c + 32 else c)"

definition py_lower :: "pystr \<Rightarrow> pystr" where
  "py_lower s = map lower_cp s"

text \<open>
  \<open>str.split()\<close> without arguments cuts at runs of whitespace and yields no empty word.
  The whitespace code points are those for which \<open>str.isspace\<close> holds.
\<close>

definition py_isspace :: "nat \<Rightarrow> bool" where
  "py_isspace c \<longleftrightarrow>
     (9 \<le> c \<and> c \<le> 13) \<or> (28 \<le> c \<and> c \<le> 32) \<or> c = 133 \<or> c = 160 \<or> c = 5760 \<or>
     (8192 \<le> c \<and> c \<le> 8202) \<or> c = 8232 \<or> c = 8233 \<or> c = 8239 \<or> c = 8287 \<or> c = 12288"

fun split_from :: "pystr \<Rightarrow> pystr \<Rightarrow> pystr list" where
  "split_from cur [] = (if cur = [] then [] else [cur])"
| "split_from cur (c # cs) =
     (if py_isspace c then (if cur = [] then split_from [] cs else cur # split_from [] cs)
      else split_from (cur @ [c]) cs)"

definition py_split :: "pystr \<Rightarrow> pystr list" where
  "py_split s = split_from [] s"

section \<open>search.pyx: the match scorer\<close>

text \<open>
  The \<open>while qpos < qlen and cpos < clen\<close> loop of \<open>fuzzy_match_score_single\<close>. The state
  is \<open>(qpos, cpos, score, last_match_pos)\<close>; the result is the state the loop leaves.
  \<open>qlen\<close> and \<open>clen\<close> are the lengths of the strings before lowering, as in the source;
  the loop indexes the lowered strings. The counters are C \<open>int\<close>s; they stay far below
  the 32-bit range for any string that fits in memory and are modelled without wrap-around.
\<close>

function match_loop ::
  "pystr \<Rightarrow> pystr \<Rightarrow> nat \<Rightarrow> nat \<Rightarrow> nat \<Rightarrow> nat \<Rightarrow> int \<Rightarrow> int \<Rightarrow> nat \<times> int \<times> int" where
  "match_loop query_lower candidate_lower qlen clen qpos cpos score last_match_pos =
     (if qpos < qlen \<and> cpos < clen then
        (if query_lower ! qpos = candidate_lower ! cpos then
           match_loop query_lower candidate_lower qlen clen (qpos + 1) (cpos + 1)
             (if int cpos = last_match_pos + 1 then score + 10 else score + 1) (int cpos)
         else match_loop query_lower candidate_lower qlen clen qpos (cpos + 1) score
                last_match_pos)
      else (qpos, score, last_match_pos))"
  by pat_completeness auto
termination
  by (relation "measure (\<lambda>(ql, cl, qlen, clen, qpos, cpos, score, lm). clen - cpos)") auto

declare match_loop.simps [simp del]

definition fuzzy_match_score_single :: "pystr \<Rightarrow> pystr \<Rightarrow> int" where
  "fuzzy_match_score_single query candidate =
     (let qlen = length query; clen = length candidate
      in case match_loop (py_lower query) (py_lower candidate) qlen clen 0 0 0 (- 1) of
           (qpos, score, last_match_pos) \<Rightarrow>
             if qpos = qlen then score + max 0 (10 - last_match_pos) else 0)"

text \<open>The \<open>for word in words\<close> loop of \<open>fuzzy_match_score\<close>, with its early return.\<close>

fun score_words :: "pystr list \<Rightarrow> pystr \<Rightarrow> int \<Rightarrow> int" where
  "score_words [] candidate total_score = total_score"
| "score_words (word # words) candidate total_score =
     (let score = fuzzy_match_score_single word candidate
      in if score = 0 then 0 else score_words words candidate (total_score + score))"

definition fuzzy_match_score :: "pystr \<Rightarrow> pystr \<Rightarrow> int" where
  "fuzzy_match_score query candidate = score_words (py_split query) candidate 0"

section \<open>color.pyx: the colour quantizer\<close>

text \<open>
  The colour components are C \<open>int\<close>s and the differences and the distance are
  \<open>int32_t\<close>. The model computes on \<open>int\<close> and writes the 32-bit two's complement
  wrap-around out.
\<close>

definition wrap32 :: "int \<Rightarrow> int" where
  "wrap32 v = (v + 2147483648) mod 4294967296 - 2147483648"

type_synonym rgb = "int \<times> int \<times> int"

definition color_dist :: "rgb \<Rightarrow> rgb \<Rightarrow> int" where
  "color_dist rgb c =
     (case rgb of (r, g, b) \<Rightarrow> case c of (c0, c1, c2) \<Rightarrow>
        let dr = wrap32 (r - c0); dg = wrap32 (g - c1); db = wrap32 (b - c2)
        in wrap32 (dr * dr + dg * dg + db * db))"

text \<open>The \<open>for i in range(n)\<close> loop of \<open>closest_color\<close>; the state is \<open>(best_dist, best_idx)\<close>.\<close>

function closest_loop :: "rgb list \<Rightarrow> rgb \<Rightarrow> nat \<Rightarrow> int \<Rightarrow> nat \<Rightarrow> int \<times> nat" where
  "closest_loop colors rgb i best_dist best_idx =
     (if i < length colors then
        (let dist = color_dist rgb (colors ! i)
         in if dist < best_dist then closest_loop colors rgb (i + 1) dist i
            else closest_loop colors rgb (i + 1) best_dist best_idx)
      else (best_dist, best_idx))"
  by pat_completeness auto
termination
  by (relation "measure (\<lambda>(colors, rgb, i, bd, bi). length colors - i)") auto

declare closest_loop.simps [simp del]

text \<open>
  The function returns \<open>(best_idx, colors[best_idx])\<close>. With an empty palette
  \<open>best_idx\<close> stays 0 and the read is outside the tuple: the model returns \<open>None\<close>.
\<close>

definition closest_color :: "rgb list \<Rightarrow> rgb \<Rightarrow> (nat \<times> rgb) option" where
  "closest_color colors rgb =
     (case closest_loop colors rgb 0 2147483647 0 of
        (best_dist, best_idx) \<Rightarrow>
          if best_idx < length colors then Some (best_idx, colors ! best_idx) else None)"

text \<open>An RGB triple: each component is a byte. The squared Euclidean distance of the spec.\<close>

definition is_rgb :: "rgb \<Rightarrow> bool" where
  "is_rgb c = (case c of (r, g, b) \<Rightarrow> 0 \<le> r \<and> r \<le> 255 \<and> 0 \<le> g \<and> g \<le> 255 \<and> 0 \<le> b \<and> b \<le> 255)"

definition sq_dist :: "rgb \<Rightarrow> rgb \<Rightarrow> int" where
  "sq_dist rgb c =
     (case rgb of (r, g, b) \<Rightarrow> case c of (c0, c1, c2) \<Rightarrow>
        (r - c0) * (r - c0) + (g - c1) * (g - c1) + (b - c2) * (b - c2))"

section \<open>color.pyx: the width engine\<close>

text \<open>
  The \<open>while low <= high\<close> loop of \<open>binary_search\<close> over the table of inclusive
  \<open>(start, end)\<close> ranges. \<open>low\<close>, \<open>high\<close> and \<open>mid\<close> are signed (\<open>Py_ssize_t\<close>):
  \<open>high\<close> goes to \<open>-1\<close> when the search leaves the table on the left.
\<close>

function bs_loop :: "int \<Rightarrow> (int \<times> int) list \<Rightarrow> int \<Rightarrow> int \<Rightarrow> int" where
  "bs_loop codepoint ranges low high =
     (if low \<le> high then
        (let mid = (low + high) div 2
         in case ranges ! nat mid of (start, end) \<Rightarrow>
              if codepoint > end then bs_loop codepoint ranges (mid + 1) high
              else if codepoint < start then bs_loop codepoint ranges low (mid - 1)
              else 1)
      else 0)"
  by pat_completeness auto
termination
  by (relation "measure (\<lambda>(cp, ranges, low, high). nat (high - low + 1))") auto

declare bs_loop.simps [simp del]

text \<open>
  \<open>binary_search\<close> reads \<open>ranges[0]\<close> and \<open>ranges[high]\<close> before the loop. With an empty
  table both reads are outside the tuple (bounds checks are off): the model returns
  \<open>None\<close> there.
\<close>

definition binary_search :: "int \<Rightarrow> (int \<times> int) list \<Rightarrow> int option" where
  "binary_search codepoint ranges =
     (if ranges = [] then None
      else let high = int (length ranges) - 1
           in if codepoint < fst (ranges ! 0) \<or> codepoint > snd (ranges ! nat high) then Some 0
              else Some (bs_loop codepoint ranges 0 high))"

text \<open>The width of one character, as both \<open>limit_width_wch\<close> and \<open>len_wch\<close> compute it.\<close>

definition wch_width :: "nat \<Rightarrow> (int \<times> int) list \<Rightarrow> int option" where
  "wch_width character ranges =
     (if 32 \<le> character \<and> character < 127 then Some 1
      else map_option (\<lambda>wide. 1 + wide) (binary_search (int character) ranges))"

function limit_loop :: "pystr \<Rightarrow> int \<Rightarrow> (int \<times> int) list \<Rightarrow> nat \<Rightarrow> int \<Rightarrow> (pystr \<times> int) option" where
  "limit_loop text max_width ranges i total_width =
     (if i < length text then
        (case wch_width (text ! i) ranges of
           None \<Rightarrow> None
         | Some cw \<Rightarrow>
             if total_width + cw > max_width then Some (take i text, total_width)
             else limit_loop text max_width ranges (i + 1) (total_width + cw))
      else Some (text, total_width))"
  by pat_completeness auto
termination
  by (relation "measure (\<lambda>(text, mw, ranges, i, tw). length text - i)") auto

declare limit_loop.simps [simp del]

definition limit_width_wch :: "pystr \<Rightarrow> int \<Rightarrow> (int \<times> int) list \<Rightarrow> (pystr \<times> int) option" where
  "limit_width_wch text max_width ranges = limit_loop text max_width ranges 0 0"

function len_loop :: "pystr \<Rightarrow> (int \<times> int) list \<Rightarrow> nat \<Rightarrow> int \<Rightarrow> int option" where
  "len_loop text ranges i total_width =
     (if i < length text then
        (case wch_width (text ! i) ranges of
           None \<Rightarrow> None
         | Some cw \<Rightarrow> len_loop text ranges (i + 1) (total_width + cw))
      else Some total_width)"
  by pat_completeness auto
termination
  by (relation "measure (\<lambda>(text, ranges, i, tw). length text - i)") auto

declare len_loop.simps [simp del]

definition len_wch :: "pystr \<Rightarrow> (int \<times> int) list \<Rightarrow> int option" where
  "len_wch text ranges = len_loop text ranges 0 0"

text \<open>The sum of the character widths of a string, for stating what the loops accumulate.\<close>

definition width_sum :: "(int \<times> int) list \<Rightarrow> pystr \<Rightarrow> int" where
  "width_sum ranges xs =
     sum_list (map (\<lambda>c. case wch_width c ranges of Some w \<Rightarrow> w | None \<Rightarrow> 0) xs)"

text \<open>
  The table of wide ranges as the width engine expects it: every range has
  \<open>start \<le> end\<close>, and each range ends before the next one starts (ordered, not
  overlapping).
\<close>

fun ranges_ok :: "(int \<times> int) list \<Rightarrow> bool" where
  "ranges_ok [] = True"
| "ranges_ok [(s, e)] = (s \<le> e)"
| "ranges_ok ((s, e) # (s', e') # rs) = (s \<le> e \<and> e < s' \<and> ranges_ok ((s', e') # rs))"

text \<open>
  The display width in the words of the specification, with no search: a printable ASCII
  character (0x20 to 0x7E) has width 1; any other code point has width 2 when some range
  of the table contains it and width 1 otherwise. The display width of a string is the
  sum over its characters.
\<close>

definition in_ranges :: "int \<Rightarrow> (int \<times> int) list \<Rightarrow> bool" where
  "in_ranges codepoint ranges = list_ex (\<lambda>(s, e). s \<le> codepoint \<and> codepoint \<le> e) ranges"

definition display_width_cp :: "(int \<times> int) list \<Rightarrow> nat \<Rightarrow> int" where
  "display_width_cp ranges c =
     (if 32 \<le> c \<and> c < 127 then 1 else if in_ranges (int c) ranges then 2 else 1)"

definition display_width :: "(int \<times> int) list \<Rightarrow> pystr \<Rightarrow> int" where
  "display_width ranges xs = sum_list (map (display_width_cp ranges) xs)"

section \<open>media.pyx: the image renderer\<close>



section \<open>pgcurses.pyx: the cell buffer\<close>

text \<open>
  A cell is the tuple \<open>(character, attr)\<close> the source stores; \<open>attr\<close> is a C
  \<open>unsigned int\<close>. A row is a list of cells, the buffer a list of rows. The rows are
  taken to be distinct list objects, so a write to one row changes no other row.
\<close>

type_synonym cell = "nat \<times> 32 word"

definition A_STANDOUT :: "32 word" where "A_STANDOUT = 0x00010000"
definition A_UNDERLINE :: "32 word" where "A_UNDERLINE = 0x00020000"
definition A_BOLD :: "32 word" where "A_BOLD = 0x00200000"
definition A_ITALIC :: "32 word" where "A_ITALIC = 0x80000000"

definition is_emoji :: "nat \<Rightarrow> bool" where
  "is_emoji ch \<longleftrightarrow>
     (0x1F300 \<le> ch \<and> ch \<le> 0x1F9FF) \<or> (0x2600 \<le> ch \<and> ch \<le> 0x27BF) \<or>
     (0x2300 \<le> ch \<and> ch \<le> 0x23FF) \<or> (0x2B00 \<le> ch \<and> ch \<le> 0x2BFF)"

text \<open>
  \<open>text.split("\n")\<close>: the segments between line feeds (code point 10); the result
  always has at least one element, and a trailing line feed gives a last empty segment.
\<close>

fun split_nl :: "pystr \<Rightarrow> pystr list" where
  "split_nl [] = [[]]"
| "split_nl (c # cs) =
     (if c = 10 then [] # split_nl cs
      else case split_nl cs of seg # segs \<Rightarrow> (c # seg) # segs | [] \<Rightarrow> [[c]])"

text \<open>
  The two inner loops of \<open>insstr\<close> on one row: \<open>for j in range(min_len)\<close> stores the
  characters of the line, \<open>for j in range(min_len, line_len)\<close> stores spaces. A list
  update outside the row is no update in the model; in the source it is a write outside
  the list (bounds checks are off), which the callers exclude by passing the buffer's own
  \<open>ncols\<close>.
\<close>

definition put_line :: "cell list \<Rightarrow> nat \<Rightarrow> pystr \<Rightarrow> 32 word \<Rightarrow> nat \<Rightarrow> cell list" where
  "put_line row_buffer x line attr min_len =
     fold (\<lambda>j rb. rb[x + j := (line ! j, attr)]) [0..<min_len] row_buffer"

definition put_spaces :: "cell list \<Rightarrow> nat \<Rightarrow> 32 word \<Rightarrow> nat \<Rightarrow> nat \<Rightarrow> cell list" where
  "put_spaces row_buffer x attr min_len line_len =
     fold (\<lambda>j rb. rb[x + j := (32, attr)]) [min_len..<line_len] row_buffer"

text \<open>
  The \<open>for i in range(len_lines)\<close> loop of \<open>insstr\<close>, with its \<open>break\<close> and
  \<open>continue\<close>. The coordinates \<open>y\<close> and \<open>x\<close> are natural numbers: a negative one
  indexes before the list storage (wraparound is off), which has no behaviour to model.
  The state is the buffer and the set of dirty rows; the lock only serialises whole
  calls and is not modelled.
\<close>

function insstr_loop ::
  "pystr list \<Rightarrow> cell list list \<Rightarrow> nat \<Rightarrow> nat \<Rightarrow> nat set \<Rightarrow> nat \<Rightarrow> nat \<Rightarrow> 32 word \<Rightarrow> nat
   \<Rightarrow> cell list list \<times> nat set" where
  "insstr_loop lines buffer nlines ncols dirty_lines y x attr i =
     (if i < length lines then
        (let line = lines ! i; row = y + i
         in if row \<ge> nlines then (buffer, dirty_lines)
            else
              (let row_buffer = buffer ! row; line_len = int ncols - int x
               in if line_len \<le> 0
                  then insstr_loop lines buffer nlines ncols dirty_lines y x attr (i + 1)
                  else
                    (let min_len = (if line_len < int (length line) then nat line_len
                                    else length line);
                         written = put_line row_buffer x line attr min_len;
                         padded = (if i < length lines - 1 \<and> int min_len < line_len
                                   then put_spaces written x attr min_len (nat line_len)
                                   else written)
                     in insstr_loop lines (buffer[row := padded]) nlines ncols
                          (insert row dirty_lines) y x attr (i + 1))))
      else (buffer, dirty_lines))"
  by pat_completeness auto
termination
  by (relation "measure (\<lambda>(lines, buffer, nlines, ncols, d, y, x, attr, i). length lines - i)")
     auto

declare insstr_loop.simps [simp del]

definition insstr ::
  "cell list list \<Rightarrow> nat \<Rightarrow> nat \<Rightarrow> nat set \<Rightarrow> nat \<Rightarrow> nat \<Rightarrow> pystr \<Rightarrow> 32 word
   \<Rightarrow> cell list list \<times> nat set" where
  "insstr buffer nlines ncols dirty_lines y x text attr =
     insstr_loop (split_nl text) buffer nlines ncols dirty_lines y x attr 0"

section \<open>pgcurses.pyx: the surface painter\<close>

datatype font = Font_regular | Font_bold | Font_italic | Font_bold_italic

text \<open>The font chosen by the \<open>if\<close>/\<open>elif\<close> chain of \<open>render\<close>, branch for branch.\<close>

definition select_font :: "32 word \<Rightarrow> font" where
  "select_font flags =
     (if flags AND A_BOLD \<noteq> 0 then
        (if flags AND A_ITALIC \<noteq> 0 then Font_bold_italic else Font_bold)
      else if flags AND A_ITALIC \<noteq> 0 then
        (if flags AND A_ITALIC \<noteq> 0 then Font_bold_italic else Font_italic)
      else Font_regular)"

text \<open>
  What \<open>render\<close> does to the screen, in order: \<open>screen.fill(colour, rect)\<close>,
  \<open>screen.blit(emoji, pos)\<close> of the scaled image of an emoji glyph, and
  \<open>font.render_to(screen, pos, text, fg)\<close> with the font and the value its
  \<open>underline\<close> property was set to just before.
\<close>

datatype draw_op =
    Fill rgb "int \<times> int \<times> int \<times> int"
  | Blit nat "int \<times> int"
  | Render_to font bool "int \<times> int" pystr rgb

text \<open>
  The arguments of \<open>render\<close> that stay fixed during a pass. \<open>emoji_ok\<close> tells for which
  glyphs \<open>emoji_font.render\<close> and the scaling succeed with a usable surface (the source
  catches every exception there and then skips the blit).
\<close>

record painter =
  char_width :: int
  char_height :: int
  pxx :: int
  pxy :: int
  color_map :: "(rgb \<times> rgb) list"
  emoji_ok :: "nat \<Rightarrow> bool"

text \<open>C division (\<open>cdivision=True\<close>): the quotient is truncated towards zero.\<close>

definition c_div :: "int \<Rightarrow> int \<Rightarrow> int" where
  "c_div a b = (if (a < 0) = (b < 0) then \<bar>a\<bar> div \<bar>b\<bar> else - (\<bar>a\<bar> div \<bar>b\<bar>))"

definition pair_colors :: "painter \<Rightarrow> 32 word \<Rightarrow> rgb \<times> rgb" where
  "pair_colors P attr =
     (case color_map P ! unat (attr AND 0xFFFF) of
        (fg, bg) \<Rightarrow> if (attr AND 0xFFFF0000) AND A_STANDOUT \<noteq> 0 then (bg, fg) else (fg, bg))"

definition emoji_ops :: "painter \<Rightarrow> nat \<Rightarrow> int \<Rightarrow> nat \<Rightarrow> 32 word \<Rightarrow> draw_op list" where
  "emoji_ops P y draw_x ch attr =
     (let px_x = draw_x * char_width P; px_y = int y * char_height P
      in case pair_colors P attr of
           (fg, bg) \<Rightarrow>
             Fill bg (px_x + pxx P, px_y + pxy P, 2 * char_width P, char_height P) #
             (if emoji_ok P ch
              then [Blit ch (px_x + c_div (2 * char_width P - char_height P) 2 + pxx P,
                             px_y + pxy P)]
              else []))"

definition text_ops :: "painter \<Rightarrow> nat \<Rightarrow> int \<Rightarrow> pystr \<Rightarrow> 32 word \<Rightarrow> draw_op list" where
  "text_ops P y span_draw_x text attr =
     (let flags = attr AND 0xFFFF0000;
          px_x = span_draw_x * char_width P; px_y = int y * char_height P
      in case pair_colors P attr of
           (fg, bg) \<Rightarrow>
             [Fill bg (px_x + pxx P, px_y + pxy P, int (length text) * char_width P,
                       char_height P),
              Render_to (select_font flags) (flags AND A_UNDERLINE \<noteq> 0)
                (px_x + pxx P, px_y + pxy P) text fg])"

text \<open>
  The inner \<open>while i < ncols\<close> loop: it collects the characters that carry the attribute
  of the run and stops at the first cell with another attribute or an emoji glyph.
\<close>

function collect ::
  "cell list \<Rightarrow> nat \<Rightarrow> 32 word \<Rightarrow> nat \<Rightarrow> int \<Rightarrow> pystr \<Rightarrow> nat \<times> int \<times> pystr" where
  "collect row ncols attr i draw_x text_buffer =
     (if i < ncols then
        (case row ! i of
           (ch, attr2) \<Rightarrow>
             if attr2 \<noteq> attr \<or> is_emoji ch then (i, draw_x, text_buffer)
             else collect row ncols attr (i + 1) (draw_x + 1) (text_buffer @ [ch]))
      else (i, draw_x, text_buffer))"
  by pat_completeness auto
termination
  by (relation "measure (\<lambda>(row, ncols, attr, i, dx, tb). ncols - i)") auto

declare collect.simps [simp del]

lemma collect_advances:
  "collect row ncols attr i draw_x tb = (i', draw_x', tb') \<Longrightarrow>
   i \<le> i' \<and> length tb' = length tb + (i' - i)"
proof (induction row ncols attr i draw_x tb rule: collect.induct)
  case (1 row ncols attr i draw_x tb)
  show ?case
  proof (cases "i < ncols")
    case False
    with "1.prems" show ?thesis by (simp add: collect.simps)
  next
    case True
    obtain ch attr2 where c: "row ! i = (ch, attr2)" by (cases "row ! i") auto
    show ?thesis
    proof (cases "attr2 \<noteq> attr \<or> is_emoji ch")
      case True
      with "1.prems" \<open>i < ncols\<close> c show ?thesis by (simp add: collect.simps)
    next
      case False
      with "1.prems" \<open>i < ncols\<close> c
      have "collect row ncols attr (i + 1) (draw_x + 1) (tb @ [ch]) = (i', draw_x', tb')"
        by (subst (asm) collect.simps) simp
      from "1.IH" [OF \<open>i < ncols\<close> c [symmetric] False this] show ?thesis by auto
    qed
  qed
qed

lemma collect_nonempty_advances:
  assumes "(i', r) = collect row ncols attr i draw_x []" and "(draw_x', tb') = r" and "tb' \<noteq> []"
  shows "i < i'"
proof -
  from assms(1,2) have "collect row ncols attr i draw_x [] = (i', draw_x', tb')" by simp
  from collect_advances [OF this] assms(3) show ?thesis by (cases "i' = i") auto
qed

text \<open>
  The outer \<open>while i < ncols\<close> loop over one dirty row \<open>y\<close>: an emoji cell is drawn two
  columns wide and the scan moves two buffer columns on; any other cell starts a run.
\<close>

function scan_row :: "painter \<Rightarrow> nat \<Rightarrow> cell list \<Rightarrow> nat \<Rightarrow> nat \<Rightarrow> int \<Rightarrow> draw_op list" where
  "scan_row P ncols row y i draw_x =
     (if i < ncols then
        (case row ! i of
           (ch, attr) \<Rightarrow>
             if is_emoji ch
             then emoji_ops P y draw_x ch attr @ scan_row P ncols row y (i + 2) (draw_x + 2)
             else
               (case collect row ncols attr i draw_x [] of
                  (i', draw_x', text_buffer) \<Rightarrow>
                    if text_buffer = []
                    then scan_row P ncols row y (i + 1) (draw_x + 1)
                    else text_ops P y draw_x text_buffer attr @
                         scan_row P ncols row y i' draw_x'))
      else [])"
  by pat_completeness auto
termination
  by (relation "measure (\<lambda>(P, ncols, row, y, i, dx). ncols - i)")
     (auto dest: collect_nonempty_advances)

declare scan_row.simps [simp del]

text \<open>
  \<open>render\<close>: every dirty row is scanned, then the dirty set is cleared. The order in
  which the source's \<open>for y in dirty_lines\<close> visits a set is not fixed by the language;
  it is the argument \<open>order\<close>, a list of the dirty rows.
\<close>

definition render ::
  "painter \<Rightarrow> cell list list \<Rightarrow> nat \<Rightarrow> nat list \<Rightarrow> draw_op list \<times> nat set" where
  "render P buffer ncols order =
     (concat (map (\<lambda>y. scan_row P ncols (buffer ! y) y 0 0) order), {})"

section \<open>tui.pyx: the chat line compositor\<close>

text \<open>
  A format part of a line is \<open>(color, start, end)\<close>; \<open>color\<close> is read into a C
  \<open>unsigned int\<close>, \<open>start\<close> and \<open>end\<close> into C \<open>int\<close>s. \<open>curses.color_pair\<close> belongs to
  the curses library and is the argument \<open>color_pair\<close>; \<open>attrib_map\<close> is the list the
  caller passes.
\<close>

type_synonym format_part = "32 word \<times> int \<times> int"

definition default_color :: "(nat \<Rightarrow> 32 word) \<Rightarrow> 32 word list \<Rightarrow> nat \<Rightarrow> 32 word" where
  "default_color color_pair attrib_map default_color_id =
     color_pair default_color_id OR attrib_map ! default_color_id"

text \<open>The value \<open>color_ready\<close> computed for a format part that covers the position.\<close>

definition color_ready ::
  "(nat \<Rightarrow> 32 word) \<Rightarrow> 32 word list \<Rightarrow> int \<Rightarrow> nat \<Rightarrow> 32 word \<Rightarrow> 32 word" where
  "color_ready color_pair attrib_map color_default default_color_id color =
     (if color \<ge> 0x00010000 then color_pair default_color_id OR color
      else
        (let color = (if color > 255 then word_of_int color_default else color)
         in color_pair (unat color) OR attrib_map ! unat color))"

text \<open>
  The \<open>for format_part in line_format[1:]\<close> loop with its \<open>break\<close> and its \<open>else\<close>
  branch: the attribute handed to \<open>safe_insch\<close> for the character at \<open>pos\<close>.
\<close>

fun resolve_attr ::
  "(nat \<Rightarrow> 32 word) \<Rightarrow> 32 word list \<Rightarrow> int \<Rightarrow> nat \<Rightarrow> format_part list \<Rightarrow> int \<Rightarrow> 32 word" where
  "resolve_attr color_pair attrib_map color_default default_color_id [] pos =
     default_color color_pair attrib_map default_color_id"
| "resolve_attr color_pair attrib_map color_default default_color_id
     ((color, start, end) # parts) pos =
     (if start \<le> pos \<and> pos < end
      then color_ready color_pair attrib_map color_default default_color_id color
      else resolve_attr color_pair attrib_map color_default default_color_id parts pos)"

datatype win_op = Win_insstr int int pystr "32 word" | Win_insch int int nat "32 word"

definition safe_insch :: "int \<Rightarrow> int \<Rightarrow> nat \<Rightarrow> 32 word \<Rightarrow> win_op" where
  "safe_insch y x ch attr = (if ch > 127 then Win_insstr y x [ch] attr else Win_insch y x ch attr)"

text \<open>The \<open>for pos in range(min(len(line), w))\<close> loop: one window call per character.\<close>

definition draw_line_chars ::
  "(nat \<Rightarrow> 32 word) \<Rightarrow> 32 word list \<Rightarrow> int \<Rightarrow> nat \<Rightarrow> format_part list \<Rightarrow> int \<Rightarrow> nat \<Rightarrow> pystr
   \<Rightarrow> win_op list" where
  "draw_line_chars color_pair attrib_map color_default default_color_id parts y w line =
     map (\<lambda>pos. safe_insch y (int pos) (line ! pos)
            (resolve_attr color_pair attrib_map color_default default_color_id parts (int pos)))
       [0..<min (length line) w]"

text \<open>
  The pairing function of ncurses, \<open>COLOR_PAIR(n) = n << 8\<close>, for evaluating the
  compositor on concrete lines.
\<close>

definition ncurses_color_pair :: "nat \<Rightarrow> 32 word" where
  "ncurses_color_pair n = push_bit 8 (of_nat n)"

section \<open>The dirty set as a state machine\<close>

text \<open>
  The state of one buffer between calls: its cells, its dirty set, and \<open>painted\<close>, the
  cells as they were when the last render pass completed. \<open>painted\<close> is not a variable
  of the source; it records what the dirty set is compared with.
\<close>

record screen_state =
  cells :: "cell list list"
  dirty :: "nat set"
  painted :: "cell list list"

text \<open>
  A step is one call of \<open>insstr\<close> or one call of \<open>render\<close> (with the order in which
  it visits the dirty rows). The draw operations of \<open>render\<close> go to the screen and are
  not part of this state.
\<close>

datatype action = Write nat nat pystr "32 word" | Paint "nat list"

fun step :: "painter \<Rightarrow> nat \<Rightarrow> nat \<Rightarrow> screen_state \<Rightarrow> action \<Rightarrow> screen_state" where
  "step P nlines ncols s (Write y x text attr) =
     (case insstr (cells s) nlines ncols (dirty s) y x text attr of
        (buffer, dirty_lines) \<Rightarrow> s\<lparr>cells := buffer, dirty := dirty_lines\<rparr>)"
| "step P nlines ncols s (Paint order) =
     (case render P (cells s) ncols order of
        (ops, dirty_lines) \<Rightarrow> s\<lparr>dirty := dirty_lines, painted := cells s\<rparr>)"

fun exec :: "painter \<Rightarrow> nat \<Rightarrow> nat \<Rightarrow> screen_state \<Rightarrow> action list \<Rightarrow> screen_state" where
  "exec P nlines ncols s [] = s"
| "exec P nlines ncols s (a # as) = exec P nlines ncols (step P nlines ncols s a) as"

section \<open>Definitions for stating the properties\<close>

text \<open>The loop invariant: the best entry so far is the first one at the least distance.\<close>

definition best_so_far :: "(nat \<Rightarrow> int) \<Rightarrow> nat \<Rightarrow> int \<Rightarrow> nat \<Rightarrow> bool" where
  "best_so_far d i best_dist best_idx \<longleftrightarrow>
     (i = 0 \<and> best_dist = 2147483647 \<and> best_idx = 0) \<or>
     (best_idx < i \<and> d best_idx = best_dist \<and> (\<forall>j<i. best_dist \<le> d j) \<and>
      (\<forall>j<best_idx. best_dist < d j))"

text \<open>
  The rows that \<open>insstr\<close> writes to, counted from segment \<open>i\<close> of the text on: row
  \<open>y + k\<close> for every segment \<open>k\<close> whose row exists, provided the column \<open>x\<close> lies
  inside the row.
\<close>

definition touched_rows :: "pystr list \<Rightarrow> nat \<Rightarrow> nat \<Rightarrow> nat \<Rightarrow> nat \<Rightarrow> nat \<Rightarrow> nat set" where
  "touched_rows lines nlines ncols y x i =
     (if x < ncols then {y + k |k. i \<le> k \<and> k < length lines \<and> y + k < nlines} else {})"

text \<open>
  Every row whose cells differ from what the last render pass saw is in the dirty set.
\<close>

definition changed_rows_dirty :: "screen_state \<Rightarrow> bool" where
  "changed_rows_dirty s \<longleftrightarrow> (\<forall>row. cells s ! row \<noteq> painted s ! row \<longrightarrow> row \<in> dirty s)"

text \<open>The number of emoji cells in a row directly before column \<open>i\<close>, without a gap.\<close>

fun emojis_before :: "cell list \<Rightarrow> nat \<Rightarrow> nat" where
  "emojis_before row 0 = 0"
| "emojis_before row (Suc i) =
     (if is_emoji (fst (row ! i)) then Suc (emojis_before row i) else 0)"

text \<open>A format part covers a position when \<open>start \<le> pos < end\<close>.\<close>

definition covers :: "int \<Rightarrow> format_part \<Rightarrow> bool" where
  "covers pos part = (case part of (color, start, end) \<Rightarrow> start \<le> pos \<and> pos < end)"

text \<open>A painter with concrete metrics and one colour pair, for evaluating \<open>render\<close>.\<close>

definition example_painter :: painter where
  "example_painter = \<lparr>char_width = 8, char_height = 16, pxx = 0, pxy = 0,
         color_map = [((255, 255, 255), (0, 0, 0))], emoji_ok = is_emoji\<rparr>"

chapter \<open>Properties\<close>

section \<open>Properties of the match scorer\<close>

lemma match_loop_skip:
  "j \<le> k \<Longrightarrow> k \<le> clen \<Longrightarrow> qpos < qlen \<Longrightarrow>
   \<forall>m. j \<le> m \<and> m < k \<longrightarrow> cl ! m \<noteq> ql ! qpos \<Longrightarrow>
   match_loop ql cl qlen clen qpos j s l = match_loop ql cl qlen clen qpos k s l"
proof (induction "k - j" arbitrary: j)
  case 0
  then show ?case by simp
next
  case (Suc n)
  then have "j < k" by simp
  with Suc.prems have ne: "cl ! j \<noteq> ql ! qpos" and lt: "j < clen" by auto
  have "match_loop ql cl qlen clen qpos j s l = match_loop ql cl qlen clen qpos (j + 1) s l"
    using ne lt Suc.prems(3) by (subst match_loop.simps) simp
  also have "\<dots> = match_loop ql cl qlen clen qpos k s l"
    using Suc by (intro Suc.hyps(1)) auto
  finally show ?case .
qed

lemma split_from_empty_iff:
  "split_from cur s = [] \<longleftrightarrow> cur = [] \<and> (\<forall>c\<in>set s. py_isspace c)"
  by (induction s arbitrary: cur) auto

text \<open>
  C2 (as the code has it). \<open>last_match_pos\<close> starts at \<open>-1\<close>, so the test
  \<open>cpos == last_match_pos + 1\<close> holds for a first match at candidate index 0: the first
  matched character of a word adds the 10 points of a consecutive match when it matches at
  index 0, and the 1 point of a gap match when it first matches at a later index \<open>k\<close>. The
  loop then goes on from \<open>qpos = 1\<close>, \<open>cpos = k + 1\<close> with that score. The word \<open>ab\<close>
  against the candidate \<open>ab\<close> scores 10 + 10 + 9 = 29.
\<close>

theorem first_match_scores_by_position:
  assumes "query \<noteq> []" and "k < length candidate"
    and "py_lower candidate ! k = py_lower query ! 0"
    and "\<forall>j<k. py_lower candidate ! j \<noteq> py_lower query ! 0"
  shows "match_loop (py_lower query) (py_lower candidate) (length query) (length candidate)
           0 0 0 (- 1) =
         match_loop (py_lower query) (py_lower candidate) (length query) (length candidate)
           1 (k + 1) (if k = 0 then 10 else 1) (int k)
         \<and> fuzzy_match_score [97, 98] [97, 98] = 29"
proof -
  let ?ql = "py_lower query" and ?cl = "py_lower candidate"
  let ?qlen = "length query" and ?clen = "length candidate"
  have len: "0 < ?qlen" using assms(1) by simp
  have "match_loop ?ql ?cl ?qlen ?clen 0 0 0 (- 1) = match_loop ?ql ?cl ?qlen ?clen 0 k 0 (- 1)"
    using len assms(2,4) by (intro match_loop_skip) auto
  also have "\<dots> = match_loop ?ql ?cl ?qlen ?clen 1 (k + 1) (if k = 0 then 10 else 1) (int k)"
    using len assms(2,3) by (subst match_loop.simps) auto
  finally have first: "match_loop ?ql ?cl ?qlen ?clen 0 0 0 (- 1) =
      match_loop ?ql ?cl ?qlen ?clen 1 (k + 1) (if k = 0 then 10 else 1) (int k)" .
  have "fuzzy_match_score [97, 98] [97, 98] = 29"
    by code_simp
  with first show ?thesis by simp
qed

theorem first_match_scores_by_position_witness:
  "match_loop (py_lower [97, 98]) (py_lower [95, 97, 98]) (length [97, 98 :: nat])
       (length [95, 97, 98 :: nat]) 0 0 0 (- 1) =
     match_loop (py_lower [97, 98]) (py_lower [95, 97, 98]) (length [97, 98 :: nat])
       (length [95, 97, 98 :: nat]) 1 2 1 1
   \<and> match_loop (py_lower [97, 98]) (py_lower [97, 98]) (length [97, 98 :: nat])
       (length [97, 98 :: nat]) 0 0 0 (- 1) =
     match_loop (py_lower [97, 98]) (py_lower [97, 98]) (length [97, 98 :: nat])
       (length [97, 98 :: nat]) 1 1 10 0
   \<and> fuzzy_match_score_single [97, 98] [95, 97, 98] = 19"
proof -
  have gap: "match_loop (py_lower [97, 98]) (py_lower [95, 97, 98]) (length [97, 98 :: nat])
       (length [95, 97, 98 :: nat]) 0 0 0 (- 1) =
     match_loop (py_lower [97, 98]) (py_lower [95, 97, 98]) (length [97, 98 :: nat])
       (length [95, 97, 98 :: nat]) 1 2 1 1"
    using first_match_scores_by_position [of "[97, 98]" 1 "[95, 97, 98]"]
    by (simp add: py_lower_def lower_cp_def numeral_2_eq_2)
  have start: "match_loop (py_lower [97, 98]) (py_lower [97, 98]) (length [97, 98 :: nat])
       (length [97, 98 :: nat]) 0 0 0 (- 1) =
     match_loop (py_lower [97, 98]) (py_lower [97, 98]) (length [97, 98 :: nat])
       (length [97, 98 :: nat]) 1 1 10 0"
    using first_match_scores_by_position [of "[97, 98]" 0 "[97, 98]"]
    by (simp add: py_lower_def lower_cp_def)
  have "fuzzy_match_score_single [97, 98] [95, 97, 98] = 19"
    by code_simp
  with gap start show ?thesis by simp
qed

theorem ab_ab_is_not_20_counterexample:
  "fuzzy_match_score [97, 98] [97, 98] \<noteq> 20"
  by code_simp

text \<open>
  C9. A query that splits into no word (it is empty or holds whitespace only) scores 0
  against every candidate: the loop over the words does not run and the initial total is
  returned.
\<close>

theorem blank_query_scores_zero:
  "(py_split query = [] \<longleftrightarrow> (\<forall>c\<in>set query. py_isspace c)) \<and>
   (py_split query = [] \<longrightarrow> fuzzy_match_score query candidate = 0)"
proof -
  have "py_split query = [] \<longleftrightarrow> (\<forall>c\<in>set query. py_isspace c)"
    by (simp add: py_split_def split_from_empty_iff)
  moreover have "fuzzy_match_score query candidate = 0" if "py_split query = []"
    using that by (simp add: fuzzy_match_score_def)
  ultimately show ?thesis by blast
qed

theorem blank_query_scores_zero_witness:
  "py_split [32, 9, 32] = [] \<and> fuzzy_match_score [32, 9, 32] [97, 98] = 0
   \<and> py_split [] = [] \<and> fuzzy_match_score [] [97, 98] = 0"
  using blank_query_scores_zero [of "[32, 9, 32]" "[97, 98]"]
    blank_query_scores_zero [of "[]" "[97, 98]"]
  by (simp add: py_isspace_def)

section \<open>Properties of the colour quantizer\<close>

lemma wrap32_id: "- 2147483648 \<le> v \<Longrightarrow> v < 2147483648 \<Longrightarrow> wrap32 v = v"
  by (simp add: wrap32_def)

lemma sq_byte_bound:
  fixes a b :: int
  assumes "0 \<le> a" "a \<le> 255" "0 \<le> b" "b \<le> 255"
  shows "0 \<le> (a - b) * (a - b)" and "(a - b) * (a - b) \<le> 65025"
proof -
  show "0 \<le> (a - b) * (a - b)" by simp
  have "\<bar>a - b\<bar> \<le> 255" using assms by simp
  then have "\<bar>a - b\<bar> * \<bar>a - b\<bar> \<le> 255 * 255"
    by (intro mult_mono) simp_all
  then show "(a - b) * (a - b) \<le> 65025"
    by (simp add: abs_mult_self_eq)
qed

lemma sq_dist_bounds:
  assumes "is_rgb rgb" "is_rgb c"
  shows "0 \<le> sq_dist rgb c" and "sq_dist rgb c \<le> 195075"
proof -
  obtain r g b c0 c1 c2 where e: "rgb = (r, g, b)" "c = (c0, c1, c2)"
    by (cases rgb, cases c) auto
  from assms e have b: "0 \<le> r" "r \<le> 255" "0 \<le> g" "g \<le> 255" "0 \<le> b" "b \<le> 255"
    "0 \<le> c0" "c0 \<le> 255" "0 \<le> c1" "c1 \<le> 255" "0 \<le> c2" "c2 \<le> 255"
    by (simp_all add: is_rgb_def)
  note s = sq_byte_bound [OF b(1,2,7,8)] sq_byte_bound [OF b(3,4,9,10)] sq_byte_bound [OF b(5,6,11,12)]
  show "0 \<le> sq_dist rgb c" using s by (simp add: sq_dist_def e)
  show "sq_dist rgb c \<le> 195075" using s by (simp add: sq_dist_def e)
qed

lemma color_dist_rgb:
  assumes "is_rgb rgb" "is_rgb c"
  shows "color_dist rgb c = sq_dist rgb c"
proof -
  obtain r g b c0 c1 c2 where e: "rgb = (r, g, b)" "c = (c0, c1, c2)"
    by (cases rgb, cases c) auto
  from assms e have b: "0 \<le> r" "r \<le> 255" "0 \<le> g" "g \<le> 255" "0 \<le> b" "b \<le> 255"
    "0 \<le> c0" "c0 \<le> 255" "0 \<le> c1" "c1 \<le> 255" "0 \<le> c2" "c2 \<le> 255"
    by (simp_all add: is_rgb_def)
  have w: "wrap32 (r - c0) = r - c0" "wrap32 (g - c1) = g - c1" "wrap32 (b - c2) = b - c2"
    using b by (simp_all add: wrap32_id)
  have "wrap32 (sq_dist rgb c) = sq_dist rgb c"
    using sq_dist_bounds [OF assms] by (intro wrap32_id) simp_all
  then show ?thesis
    by (simp add: color_dist_def sq_dist_def e w Let_def)
qed

lemma sq_dist_zero_iff:
  "sq_dist rgb c = 0 \<longleftrightarrow> rgb = c"
proof -
  obtain r g b c0 c1 c2 where e: "rgb = (r, g, b)" "c = (c0, c1, c2)"
    by (cases rgb, cases c) auto
  have "(r - c0) * (r - c0) + (g - c1) * (g - c1) + (b - c2) * (b - c2) = 0
        \<longleftrightarrow> r - c0 = 0 \<and> g - c1 = 0 \<and> b - c2 = 0"
    by (smt (verit) mult_eq_0_iff zero_le_square)
  then show ?thesis by (auto simp add: sq_dist_def e)
qed

lemma closest_loop_invariant:
  assumes "\<forall>j<length colors. color_dist rgb (colors ! j) < 2147483647"
    and "i \<le> length colors"
    and "best_so_far (\<lambda>j. color_dist rgb (colors ! j)) i best_dist best_idx"
    and "closest_loop colors rgb i best_dist best_idx = (bd, bi)"
  shows "best_so_far (\<lambda>j. color_dist rgb (colors ! j)) (length colors) bd bi"
  using assms
proof (induction colors rgb i best_dist best_idx rule: closest_loop.induct)
  case (1 colors rgb i best_dist best_idx)
  let ?d = "\<lambda>j. color_dist rgb (colors ! j)"
  show ?case
  proof (cases "i < length colors")
    case False
    with "1.prems" show ?thesis
      by (simp add: closest_loop.simps)
  next
    case lt: True
    show ?thesis
    proof (cases "?d i < best_dist")
      case True
      have inv: "best_so_far ?d (i + 1) (?d i) i"
        using "1.prems"(3) True unfolding best_so_far_def
        by (auto simp: less_Suc_eq)
      have "closest_loop colors rgb (i + 1) (?d i) i = (bd, bi)"
        using "1.prems"(4) lt True by (subst (asm) closest_loop.simps) (simp add: Let_def)
      with "1.IH"(1) [OF lt refl True "1.prems"(1) _ inv] lt show ?thesis by simp
    next
      case False
      have "best_dist \<noteq> 2147483647 \<or> i \<noteq> 0"
        using False "1.prems"(1) lt by fastforce
      then have inv: "best_so_far ?d (i + 1) best_dist best_idx"
        using "1.prems"(3) False "1.prems"(1) lt unfolding best_so_far_def
        by (auto simp: less_Suc_eq)
      have "closest_loop colors rgb (i + 1) best_dist best_idx = (bd, bi)"
        using "1.prems"(4) lt False by (subst (asm) closest_loop.simps) (simp add: Let_def)
      with "1.IH"(2) [OF lt refl False "1.prems"(1) _ inv] lt show ?thesis by simp
    qed
  qed
qed

text \<open>
  C8. For a palette that is not empty and byte-valued colour components,
  \<open>closest_color\<close> returns an index \<open>k\<close> with the entry at \<open>k\<close>; that entry is at the
  least squared Euclidean distance, and every entry before \<open>k\<close> is strictly farther, so
  a tie goes to the lowest index. When the triple occurs in the palette, the entry
  returned is equal to it (distance 0) and \<open>k\<close> is the lowest index where it occurs.
\<close>

theorem closest_color_lowest_index:
  assumes "colors \<noteq> []" and "\<forall>c\<in>set colors. is_rgb c" and "is_rgb rgb"
  shows "\<exists>k<length colors. closest_color colors rgb = Some (k, colors ! k) \<and>
           (\<forall>j<length colors. sq_dist rgb (colors ! k) \<le> sq_dist rgb (colors ! j)) \<and>
           (\<forall>j<k. sq_dist rgb (colors ! k) < sq_dist rgb (colors ! j)) \<and>
           (rgb \<in> set colors \<longrightarrow>
              colors ! k = rgb \<and> sq_dist rgb (colors ! k) = 0 \<and> (\<forall>j<k. colors ! j \<noteq> rgb))"
proof -
  let ?d = "\<lambda>j. color_dist rgb (colors ! j)"
  have d_eq: "?d j = sq_dist rgb (colors ! j)" if "j < length colors" for j
    using that assms(2,3) by (intro color_dist_rgb) simp_all
  have small: "\<forall>j<length colors. ?d j < 2147483647"
  proof (intro allI impI)
    fix j assume j: "j < length colors"
    then have "sq_dist rgb (colors ! j) \<le> 195075"
      using assms(2,3) by (intro sq_dist_bounds) simp_all
    with d_eq [OF j] show "?d j < 2147483647" by simp
  qed
  obtain bd bi where run: "closest_loop colors rgb 0 2147483647 0 = (bd, bi)"
    by (cases "closest_loop colors rgb 0 2147483647 0") auto
  have "best_so_far ?d 0 2147483647 0"
    by (simp add: best_so_far_def)
  from closest_loop_invariant [OF small _ this run]
  have inv: "best_so_far ?d (length colors) bd bi" by simp
  with assms(1) have bi: "bi < length colors" and bd: "?d bi = bd"
    and least: "\<forall>j<length colors. bd \<le> ?d j" and first: "\<forall>j<bi. bd < ?d j"
    by (auto simp: best_so_far_def)
  have res: "closest_color colors rgb = Some (bi, colors ! bi)"
    using run bi by (simp add: closest_color_def)
  have le: "\<forall>j<length colors. sq_dist rgb (colors ! bi) \<le> sq_dist rgb (colors ! j)"
    using least bd d_eq bi by auto
  have lt: "\<forall>j<bi. sq_dist rgb (colors ! bi) < sq_dist rgb (colors ! j)"
    using first bd d_eq bi by auto
  have exact: "colors ! bi = rgb \<and> sq_dist rgb (colors ! bi) = 0 \<and> (\<forall>j<bi. colors ! j \<noteq> rgb)"
    if "rgb \<in> set colors"
  proof -
    from that obtain m where m: "m < length colors" "colors ! m = rgb"
      by (auto simp: in_set_conv_nth)
    then have "sq_dist rgb (colors ! m) = 0"
      by (simp add: sq_dist_zero_iff)
    with le m(1) have "sq_dist rgb (colors ! bi) \<le> 0" by fastforce
    moreover have "0 \<le> sq_dist rgb (colors ! bi)"
      using bi assms(2,3) by (intro sq_dist_bounds) simp_all
    ultimately have z: "sq_dist rgb (colors ! bi) = 0" by simp
    then have eq: "colors ! bi = rgb" by (simp add: sq_dist_zero_iff)
    have "colors ! j \<noteq> rgb" if "j < bi" for j
    proof
      assume "colors ! j = rgb"
      then have "sq_dist rgb (colors ! j) = 0" by (simp add: sq_dist_zero_iff)
      with lt that z show False by fastforce
    qed
    with z eq show ?thesis by simp
  qed
  from bi res le lt exact show ?thesis by blast
qed

theorem closest_color_lowest_index_witness:
  "(\<exists>k<length [(0, 0, 0), (255, 0, 0), (255, 0, 0) :: rgb].
      closest_color [(0, 0, 0), (255, 0, 0), (255, 0, 0)] (255, 0, 0) =
        Some (k, [(0, 0, 0), (255, 0, 0), (255, 0, 0)] ! k) \<and>
      [(0, 0, 0), (255, 0, 0), (255, 0, 0)] ! k = ((255, 0, 0) :: rgb) \<and>
      (\<forall>j<k. [(0, 0, 0), (255, 0, 0), (255, 0, 0)] ! j \<noteq> ((255, 0, 0) :: rgb))) \<and>
   closest_color [(0, 0, 0), (255, 0, 0), (255, 0, 0)] (255, 0, 0) = Some (1, (255, 0, 0))"
proof -
  let ?C = "[(0, 0, 0), (255, 0, 0), (255, 0, 0)] :: rgb list"
  have h: "?C \<noteq> []" "\<forall>c\<in>set ?C. is_rgb c" "is_rgb (255, 0, 0)"
    by (simp_all add: is_rgb_def)
  have m: "(255, 0, 0) \<in> set ?C" by simp
  from closest_color_lowest_index [OF h] obtain k where
    "k < length ?C" "closest_color ?C (255, 0, 0) = Some (k, ?C ! k)"
    "(255, 0, 0) \<in> set ?C \<longrightarrow> ?C ! k = (255, 0, 0) \<and> sq_dist (255, 0, 0) (?C ! k) = 0
       \<and> (\<forall>j<k. ?C ! j \<noteq> (255, 0, 0))"
    by blast
  with m have "\<exists>k<length ?C. closest_color ?C (255, 0, 0) = Some (k, ?C ! k) \<and>
      ?C ! k = (255, 0, 0) \<and> (\<forall>j<k. ?C ! j \<noteq> (255, 0, 0))"
    by blast
  moreover have "closest_color ?C (255, 0, 0) = Some (1, (255, 0, 0))"
    by code_simp
  ultimately show ?thesis by blast
qed

section \<open>Properties of the width engine\<close>

lemma bs_loop_bit: "bs_loop cp ranges low high = 0 \<or> bs_loop cp ranges low high = 1"
proof (induction cp ranges low high rule: bs_loop.induct)
  case (1 cp ranges low high)
  show ?case
  proof (cases "low \<le> high")
    case False
    then show ?thesis by (simp add: bs_loop.simps)
  next
    case True
    obtain st en where m: "ranges ! nat ((low + high) div 2) = (st, en)"
      by (cases "ranges ! nat ((low + high) div 2)") auto
    show ?thesis
      using True m "1.IH"(1) [OF True refl m [symmetric]] "1.IH"(2) [OF True refl m [symmetric]]
      by (subst (1 2) bs_loop.simps) (auto simp: Let_def)
  qed
qed

lemma wch_width_cases:
  assumes "ranges \<noteq> []"
  shows "wch_width c ranges = Some 1 \<or> wch_width c ranges = Some 2"
  using assms bs_loop_bit [of "int c" ranges 0 "int (length ranges) - 1"]
  by (auto simp: wch_width_def binary_search_def Let_def)

lemma width_sum_append: "width_sum ranges (xs @ ys) = width_sum ranges xs + width_sum ranges ys"
  by (simp add: width_sum_def)

lemma width_sum_ge_length:
  assumes "ranges \<noteq> []"
  shows "int (length xs) \<le> width_sum ranges xs"
proof (induction xs)
  case Nil
  then show ?case by (simp add: width_sum_def)
next
  case (Cons c xs)
  from wch_width_cases [OF assms, of c] Cons show ?case
    by (auto simp: width_sum_def)
qed

lemma width_sum_take_Suc:
  assumes "i < length str" and "wch_width (str ! i) ranges = Some cw"
  shows "width_sum ranges (take (i + 1) str) = width_sum ranges (take i str) + cw"
  using assms by (simp add: take_Suc_conv_app_nth width_sum_append) (simp add: width_sum_def)

lemma width_sum_take_mono:
  assumes "ranges \<noteq> []" and "j \<le> k"
  shows "width_sum ranges (take j str) \<le> width_sum ranges (take k str)"
proof -
  have "take k str = take j str @ take (k - j) (drop j str)"
    using assms(2) by (metis le_add_diff_inverse take_add)
  moreover have "0 \<le> width_sum ranges (take (k - j) (drop j str))"
    using width_sum_ge_length [OF assms(1), of "take (k - j) (drop j str)"] by linarith
  ultimately show ?thesis by (simp add: width_sum_append)
qed

lemma len_loop_width_sum:
  assumes "ranges \<noteq> []" and "i \<le> length str"
  shows "len_loop str ranges i tw = Some (tw + width_sum ranges (drop i str))"
  using assms
proof (induction str ranges i tw rule: len_loop.induct)
  case (1 str ranges i tw)
  show ?case
  proof (cases "i < length str")
    case False
    with "1.prems" show ?thesis
      by (simp add: len_loop.simps width_sum_def)
  next
    case True
    from wch_width_cases [OF "1.prems"(1)] obtain cw where
      cw: "wch_width (str ! i) ranges = Some cw" by blast
    have d: "drop i str = str ! i # drop (i + 1) str"
      using True by (simp add: Cons_nth_drop_Suc)
    have "len_loop str ranges i tw = len_loop str ranges (i + 1) (tw + cw)"
      using True cw by (subst len_loop.simps) simp
    also have "\<dots> = Some (tw + cw + width_sum ranges (drop (i + 1) str))"
      using "1.IH" [OF True cw "1.prems"(1)] True by simp
    also have "tw + cw + width_sum ranges (drop (i + 1) str)
               = tw + width_sum ranges (drop i str)"
      by (subst d) (simp add: width_sum_def cw)
    finally show ?thesis .
  qed
qed

lemma len_wch_width_sum: "ranges \<noteq> [] \<Longrightarrow> len_wch str ranges = Some (width_sum ranges str)"
  by (simp add: len_wch_def len_loop_width_sum)

lemma limit_loop_prefix:
  assumes "ranges \<noteq> []" and "i \<le> length str"
    and "tw = width_sum ranges (take i str)"
  shows "\<exists>k. i \<le> k \<and> k \<le> length str \<and>
           limit_loop str max_width ranges i tw =
             Some (take k str, width_sum ranges (take k str)) \<and>
           (k < length str \<longrightarrow> max_width < width_sum ranges (take (k + 1) str)) \<and>
           (i < k \<longrightarrow> width_sum ranges (take k str) \<le> max_width)"
  using assms
proof (induction str max_width ranges i tw rule: limit_loop.induct)
  case (1 str max_width ranges i tw)
  show ?case
  proof (cases "i < length str")
    case False
    with "1.prems" have "limit_loop str max_width ranges i tw =
        Some (take i str, width_sum ranges (take i str))"
      by (simp add: limit_loop.simps)
    with False "1.prems"(2) show ?thesis by auto
  next
    case True
    from wch_width_cases [OF "1.prems"(1)] obtain cw where
      cw: "wch_width (str ! i) ranges = Some cw" by blast
    have nxt: "width_sum ranges (take (i + 1) str) = tw + cw"
      using width_sum_take_Suc [OF True cw] "1.prems"(3) by simp
    show ?thesis
    proof (cases "tw + cw > max_width")
      case over: True
      have "limit_loop str max_width ranges i tw =
          Some (take i str, width_sum ranges (take i str))"
        using True cw over "1.prems"(3) by (subst limit_loop.simps) simp
      with over nxt True show ?thesis by auto
    next
      case fits: False
      have step: "limit_loop str max_width ranges i tw =
          limit_loop str max_width ranges (i + 1) (tw + cw)"
        using True cw fits by (subst limit_loop.simps) simp
      from "1.IH" [OF True cw fits "1.prems"(1) _ nxt [symmetric]] True
      obtain k where k: "i + 1 \<le> k" "k \<le> length str"
        "limit_loop str max_width ranges (i + 1) (tw + cw) =
           Some (take k str, width_sum ranges (take k str))"
        "k < length str \<longrightarrow> max_width < width_sum ranges (take (k + 1) str)"
        "i + 1 < k \<longrightarrow> width_sum ranges (take k str) \<le> max_width"
        by auto
      have "width_sum ranges (take k str) \<le> max_width"
      proof (cases "k = i + 1")
        case True
        with nxt fits show ?thesis by simp
      next
        case False
        with k(1,5) show ?thesis by simp
      qed
      with k step show ?thesis
        by (intro exI [of _ k]) auto
    qed
  qed
qed

lemma ranges_ok_wf: "ranges_ok rs \<Longrightarrow> i < length rs \<Longrightarrow> fst (rs ! i) \<le> snd (rs ! i)"
proof (induction rs arbitrary: i rule: ranges_ok.induct)
  case 1
  then show ?case by simp
next
  case (2 s e)
  then show ?case by simp
next
  case (3 s e s' e' rs)
  then show ?case by (cases i) auto
qed

lemma ranges_ok_head_before:
  "ranges_ok ((s, e) # rs) \<Longrightarrow> j < length rs \<Longrightarrow> e < fst (rs ! j)"
proof (induction rs arbitrary: s e j)
  case Nil
  then show ?case by simp
next
  case (Cons r rs)
  obtain s' e' where r: "r = (s', e')" by (cases r) auto
  from Cons.prems r have ok: "s \<le> e" "e < s'" "ranges_ok ((s', e') # rs)" by simp_all
  show ?case
  proof (cases j)
    case 0
    with r ok show ?thesis by simp
  next
    case (Suc j')
    with Cons.prems have "j' < length rs" by simp
    from Cons.IH [OF ok(3) this] have "e' < fst (rs ! j')" .
    moreover from ranges_ok_wf [OF ok(3), of 0] have "s' \<le> e'" by simp
    ultimately show ?thesis using ok(2) Suc by simp
  qed
qed

lemma ranges_ok_tail: "ranges_ok (r # rs) \<Longrightarrow> ranges_ok rs"
  by (cases r, cases rs) auto

lemma ranges_ok_sorted:
  "ranges_ok rs \<Longrightarrow> i < j \<Longrightarrow> j < length rs \<Longrightarrow> snd (rs ! i) < fst (rs ! j)"
proof (induction rs arbitrary: i j)
  case Nil
  then show ?case by simp
next
  case (Cons r rs)
  obtain s e where r: "r = (s, e)" by (cases r) auto
  from Cons.prems obtain j' where j: "j = Suc j'" by (cases j) auto
  show ?case
  proof (cases i)
    case 0
    from Cons.prems j have "j' < length rs" by simp
    from ranges_ok_head_before [OF Cons.prems(1) [unfolded r] this] 0 j r show ?thesis by simp
  next
    case (Suc i')
    with Cons.prems j have "i' < j'" "j' < length rs" by simp_all
    from Cons.IH [OF ranges_ok_tail [OF Cons.prems(1)] this] Suc j show ?thesis by simp
  qed
qed

lemma in_ranges_iff:
  "in_ranges cp rs \<longleftrightarrow> (\<exists>i<length rs. fst (rs ! i) \<le> cp \<and> cp \<le> snd (rs ! i))"
proof -
  have "in_ranges cp rs \<longleftrightarrow> (\<exists>r\<in>set rs. fst r \<le> cp \<and> cp \<le> snd r)"
    by (simp add: in_ranges_def list_ex_iff case_prod_beta)
  also have "\<dots> \<longleftrightarrow> (\<exists>i<length rs. fst (rs ! i) \<le> cp \<and> cp \<le> snd (rs ! i))"
    by (metis in_set_conv_nth)
  finally show ?thesis .
qed

lemma bs_loop_finds:
  assumes "ranges_ok ranges" and "0 \<le> low" and "high < int (length ranges)"
    and "\<forall>i<length ranges. int i < low \<longrightarrow> snd (ranges ! i) < cp"
    and "\<forall>i<length ranges. high < int i \<longrightarrow> cp < fst (ranges ! i)"
  shows "bs_loop cp ranges low high = (if in_ranges cp ranges then 1 else 0)"
  using assms
proof (induction cp ranges low high rule: bs_loop.induct)
  case (1 cp ranges low high)
  show ?case
  proof (cases "low \<le> high")
    case False
    have "\<not> in_ranges cp ranges"
    proof
      assume "in_ranges cp ranges"
      then obtain i where i: "i < length ranges" "fst (ranges ! i) \<le> cp" "cp \<le> snd (ranges ! i)"
        by (auto simp: in_ranges_iff)
      from False have "int i < low \<or> high < int i" by linarith
      with i "1.prems"(4,5) show False by fastforce
    qed
    with False show ?thesis by (simp add: bs_loop.simps)
  next
    case True
    define mid where "mid = (low + high) div 2"
    have mid: "low \<le> mid" "mid \<le> high" using True by (simp_all add: mid_def)
    with "1.prems"(2,3) have m: "nat mid < length ranges" "int (nat mid) = mid" by simp_all
    obtain st en where cell: "ranges ! nat mid = (st, en)" by (cases "ranges ! nat mid") auto
    have wf: "st \<le> en" using ranges_ok_wf [OF "1.prems"(1) m(1)] cell by simp
    show ?thesis
    proof (cases "cp > en")
      case right: True
      have inv: "\<forall>i<length ranges. int i < mid + 1 \<longrightarrow> snd (ranges ! i) < cp"
      proof (intro allI impI)
        fix i assume i: "i < length ranges" "int i < mid + 1"
        show "snd (ranges ! i) < cp"
        proof (cases "i = nat mid")
          case True
          with cell right show ?thesis by simp
        next
          case False
          with i m have "i < nat mid" by linarith
          from ranges_ok_sorted [OF "1.prems"(1) this m(1)] cell wf right show ?thesis by simp
        qed
      qed
      have "bs_loop cp ranges (mid + 1) high = (if in_ranges cp ranges then 1 else 0)"
        using mid "1.prems"(2)
        by (intro "1.IH"(1) [OF True mid_def cell [symmetric] right "1.prems"(1) _ "1.prems"(3)
              inv "1.prems"(5)]) simp
      with True cell right show ?thesis
        by (subst bs_loop.simps) (simp add: Let_def mid_def [symmetric])
    next
      case not_right: False
      show ?thesis
      proof (cases "cp < st")
        case left: True
        have inv: "\<forall>i<length ranges. mid - 1 < int i \<longrightarrow> cp < fst (ranges ! i)"
        proof (intro allI impI)
          fix i assume i: "i < length ranges" "mid - 1 < int i"
          show "cp < fst (ranges ! i)"
          proof (cases "i = nat mid")
            case True
            with cell left show ?thesis by simp
          next
            case False
            with i m have "nat mid < i" by linarith
            from ranges_ok_sorted [OF "1.prems"(1) this i(1)] cell wf left show ?thesis by simp
          qed
        qed
        have "bs_loop cp ranges low (mid - 1) = (if in_ranges cp ranges then 1 else 0)"
          using mid "1.prems"(3)
          by (intro "1.IH"(2) [OF True mid_def cell [symmetric] not_right left "1.prems"(1,2) _
                "1.prems"(4) inv]) simp
        with True cell not_right left show ?thesis
          by (subst bs_loop.simps) (simp add: Let_def mid_def [symmetric])
      next
        case False
        with not_right m(1) cell have "in_ranges cp ranges"
          by (auto simp: in_ranges_iff intro!: exI [of _ "nat mid"])
        with True cell not_right False show ?thesis
          by (subst bs_loop.simps) (simp add: Let_def mid_def [symmetric])
      qed
    qed
  qed
qed

lemma binary_search_finds:
  assumes "ranges \<noteq> []" and "ranges_ok ranges"
  shows "binary_search cp ranges = Some (if in_ranges cp ranges then 1 else 0)"
proof -
  let ?n = "length ranges"
  have n: "0 < ?n" using assms(1) by simp
  show ?thesis
  proof (cases "cp < fst (ranges ! 0) \<or> cp > snd (ranges ! nat (int ?n - 1))")
    case True
    have "\<not> in_ranges cp ranges"
    proof
      assume "in_ranges cp ranges"
      then obtain i where i: "i < ?n" "fst (ranges ! i) \<le> cp" "cp \<le> snd (ranges ! i)"
        by (auto simp: in_ranges_iff)
      from True show False
      proof
        assume lo: "cp < fst (ranges ! 0)"
        show False
        proof (cases "i = 0")
          case True
          with lo i show ?thesis by simp
        next
          case False
          then have "0 < i" by simp
          from ranges_ok_sorted [OF assms(2) this i(1)] ranges_ok_wf [OF assms(2) n] lo i
          show ?thesis by simp
        qed
      next
        assume hi: "cp > snd (ranges ! nat (int ?n - 1))"
        have last: "nat (int ?n - 1) = ?n - 1" by simp
        show False
        proof (cases "i = ?n - 1")
          case True
          with hi i last show ?thesis by simp
        next
          case False
          with i have "i < ?n - 1" "?n - 1 < ?n" by simp_all
          from ranges_ok_sorted [OF assms(2) this] ranges_ok_wf [OF assms(2), of "?n - 1"] n hi i
            last
          show ?thesis by simp
        qed
      qed
    qed
    with True assms(1) show ?thesis by (simp add: binary_search_def Let_def)
  next
    case False
    have "bs_loop cp ranges 0 (int ?n - 1) = (if in_ranges cp ranges then 1 else 0)"
      by (rule bs_loop_finds [OF assms(2)]) simp_all
    with False assms(1) show ?thesis by (simp add: binary_search_def Let_def)
  qed
qed

lemma wch_width_display:
  assumes "ranges \<noteq> []" and "ranges_ok ranges"
  shows "wch_width c ranges = Some (display_width_cp ranges c)"
  using binary_search_finds [OF assms, of "int c"]
  by (simp add: wch_width_def display_width_cp_def)

lemma width_sum_display:
  assumes "ranges \<noteq> []" and "ranges_ok ranges"
  shows "width_sum ranges xs = display_width ranges xs"
  by (induction xs) (simp_all add: width_sum_def display_width_def wch_width_display [OF assms])

lemma limit_width_wch_width_sum:
  assumes "ranges \<noteq> []"
  shows "\<exists>k\<le>length str.
           limit_width_wch str max_width ranges =
             Some (take k str, width_sum ranges (take k str)) \<and>
           (0 \<le> max_width \<longrightarrow> width_sum ranges (take k str) \<le> max_width) \<and>
           (\<forall>j. k < j \<and> j \<le> length str \<longrightarrow> max_width < width_sum ranges (take j str)) \<and>
           (max_width \<le> 0 \<longrightarrow> k = 0)"
proof -
  have "(0::int) = width_sum ranges (take 0 str)"
    by (simp add: width_sum_def)
  from limit_loop_prefix [OF assms _ this, of max_width]
  obtain k where k: "k \<le> length str"
    "limit_loop str max_width ranges 0 0 = Some (take k str, width_sum ranges (take k str))"
    "k < length str \<longrightarrow> max_width < width_sum ranges (take (k + 1) str)"
    "0 < k \<longrightarrow> width_sum ranges (take k str) \<le> max_width"
    by auto
  let ?w = "width_sum ranges (take k str)"
  have r: "limit_width_wch str max_width ranges = Some (take k str, ?w)"
    using k(2) by (simp add: limit_width_wch_def)
  have fits: "?w \<le> max_width" if "0 \<le> max_width"
  proof (cases "k = 0")
    case True
    with that show ?thesis by (simp add: width_sum_def)
  next
    case False
    with k(4) show ?thesis by simp
  qed
  have longer: "max_width < width_sum ranges (take j str)"
    if "k < j \<and> j \<le> length str" for j
  proof -
    from that have "k < length str" "k + 1 \<le> j" by simp_all
    with k(3) width_sum_take_mono [OF assms, of "k + 1" j str]
    show ?thesis by simp
  qed
  have empty: "k = 0" if "max_width \<le> 0"
  proof (rule ccontr)
    assume "k \<noteq> 0"
    with k(4) that have "?w \<le> 0" by simp
    moreover have "int (length (take k str)) \<le> ?w"
      by (rule width_sum_ge_length [OF assms])
    ultimately show False using \<open>k \<noteq> 0\<close> k(1) by simp
  qed
  from k(1) r fits longer empty show ?thesis by blast
qed

text \<open>
  C7. With an ordered table of wide ranges that do not overlap, \<open>limit_width_wch\<close>
  returns a prefix of whole characters together with its display width, where the
  display width is the one of the specification (printable ASCII 1, a code point inside
  a range 2, any other 1) and not the search's own answer. For a limit of at least 0 that
  width does not exceed the limit, and every longer prefix of the string is wider than
  the limit, so the result is the longest prefix that fits. The character after the
  prefix, wide or not, would take the width past the limit and is left out whole. For a
  limit of 0 or less the result is the empty prefix with width 0. \<open>len_wch\<close> measures
  every prefix with the same display width.
\<close>

theorem limit_width_wch_longest_prefix:
  assumes "ranges \<noteq> []" and "ranges_ok ranges"
  shows "\<exists>k\<le>length str. \<exists>w.
           limit_width_wch str max_width ranges = Some (take k str, w) \<and>
           w = display_width ranges (take k str) \<and>
           len_wch (take k str) ranges = Some w \<and>
           (0 \<le> max_width \<longrightarrow> w \<le> max_width) \<and>
           (\<forall>j. k < j \<and> j \<le> length str \<longrightarrow>
              len_wch (take j str) ranges = Some (display_width ranges (take j str)) \<and>
              max_width < display_width ranges (take j str)) \<and>
           (k < length str \<longrightarrow> max_width < w + display_width_cp ranges (str ! k)) \<and>
           (max_width \<le> 0 \<longrightarrow> k = 0 \<and> w = 0)"
proof -
  note ws = width_sum_display [OF assms]
  from limit_width_wch_width_sum [OF assms(1), of str max_width]
  obtain k where k: "k \<le> length str"
    "limit_width_wch str max_width ranges = Some (take k str, display_width ranges (take k str))"
    "0 \<le> max_width \<longrightarrow> display_width ranges (take k str) \<le> max_width"
    "\<forall>j. k < j \<and> j \<le> length str \<longrightarrow> max_width < display_width ranges (take j str)"
    "max_width \<le> 0 \<longrightarrow> k = 0"
    unfolding ws by blast
  let ?w = "display_width ranges (take k str)"
  have l: "len_wch xs ranges = Some (display_width ranges xs)" for xs
    using len_wch_width_sum [OF assms(1), of xs] by (simp add: ws)
  have nxt: "max_width < ?w + display_width_cp ranges (str ! k)" if "k < length str"
  proof -
    from that k(4) have "max_width < display_width ranges (take (k + 1) str)" by simp
    with that show ?thesis by (simp add: take_Suc_conv_app_nth display_width_def)
  qed
  have empty: "k = 0 \<and> ?w = 0" if "max_width \<le> 0"
    using that k(5) by (simp add: display_width_def)
  from k(1,2,3,4) l nxt empty show ?thesis by blast
qed

theorem limit_width_wch_longest_prefix_witness:
  "(\<exists>k\<le>length [97, 19990, 98 :: nat]. \<exists>w.
      limit_width_wch [97, 19990, 98] 2 [(4352, 4447), (19968, 40959)] =
        Some (take k [97, 19990, 98], w) \<and>
      w = display_width [(4352, 4447), (19968, 40959)] (take k [97, 19990, 98]) \<and>
      len_wch (take k [97, 19990, 98]) [(4352, 4447), (19968, 40959)] = Some w \<and> w \<le> 2 \<and>
      (\<forall>j. k < j \<and> j \<le> length [97, 19990, 98 :: nat] \<longrightarrow>
         2 < display_width [(4352, 4447), (19968, 40959)] (take j [97, 19990, 98]))) \<and>
   limit_width_wch [97, 19990, 98] 2 [(4352, 4447), (19968, 40959)] = Some ([97], 1) \<and>
   display_width [(4352, 4447), (19968, 40959)] [97, 19990] = 3 \<and>
   limit_width_wch [233, 233] 2 [(4352, 4447), (19968, 40959)] = Some ([233, 233], 2)"
proof -
  let ?R = "[(4352, 4447), (19968, 40959)] :: (int \<times> int) list"
  let ?T = "[97, 19990, 98] :: nat list"
  have h: "?R \<noteq> []" "ranges_ok ?R" by simp_all
  from limit_width_wch_longest_prefix [OF h, of ?T 2]
  obtain k w where "k \<le> length ?T"
    "limit_width_wch ?T 2 ?R = Some (take k ?T, w)"
    "w = display_width ?R (take k ?T)"
    "len_wch (take k ?T) ?R = Some w"
    "(0::int) \<le> 2 \<longrightarrow> w \<le> 2"
    "\<forall>j. k < j \<and> j \<le> length ?T \<longrightarrow>
       len_wch (take j ?T) ?R = Some (display_width ?R (take j ?T)) \<and>
       2 < display_width ?R (take j ?T)"
    by blast
  then have "\<exists>k\<le>length ?T. \<exists>w.
      limit_width_wch ?T 2 ?R = Some (take k ?T, w) \<and>
      w = display_width ?R (take k ?T) \<and>
      len_wch (take k ?T) ?R = Some w \<and> w \<le> 2 \<and>
      (\<forall>j. k < j \<and> j \<le> length ?T \<longrightarrow> 2 < display_width ?R (take j ?T))"
    by (intro exI [of _ k] conjI exI [of _ w]) simp_all
  moreover have "limit_width_wch ?T 2 ?R = Some ([97], 1)"
    by code_simp
  moreover have "display_width ?R [97, 19990] = 3"
    by (simp add: display_width_def display_width_cp_def in_ranges_def)
  moreover have "limit_width_wch [233, 233] 2 ?R = Some ([233, 233], 2)"
    by code_simp
  ultimately show ?thesis by blast
qed

section \<open>Properties of the image renderer\<close>




section \<open>Properties of the chat line compositor\<close>

lemma resolve_attr_none:
  "\<forall>part\<in>set parts. \<not> covers pos part \<Longrightarrow>
   resolve_attr cp am cd dcid parts pos = default_color cp am dcid"
proof (induction parts)
  case Nil
  then show ?case by simp
next
  case (Cons part parts)
  obtain color start "end" where p: "part = (color, start, end)" by (cases part) auto
  from Cons.prems p have "\<not> (start \<le> pos \<and> pos < end)" by (simp add: covers_def)
  moreover from Cons have "resolve_attr cp am cd dcid parts pos = default_color cp am dcid"
    by simp
  ultimately show ?case unfolding p by (simp only: resolve_attr.simps if_False)
qed

lemma resolve_attr_first:
  "k < length parts \<Longrightarrow> covers pos (parts ! k) \<Longrightarrow> \<forall>j<k. \<not> covers pos (parts ! j) \<Longrightarrow>
   resolve_attr cp am cd dcid parts pos = color_ready cp am cd dcid (fst (parts ! k))"
proof (induction parts arbitrary: k)
  case Nil
  then show ?case by simp
next
  case (Cons part parts)
  obtain color start "end" where p: "part = (color, start, end)" by (cases part) auto
  show ?case
  proof (cases k)
    case 0
    with Cons.prems p show ?thesis by (simp add: covers_def)
  next
    case (Suc k')
    with Cons.prems have "\<not> covers pos part" by auto
    with p have no: "\<not> (start \<le> pos \<and> pos < end)" by (simp add: covers_def)
    have "resolve_attr cp am cd dcid parts pos = color_ready cp am cd dcid (fst (parts ! k'))"
      using Cons.prems Suc by (intro Cons.IH) auto
    with no have "resolve_attr cp am cd dcid (part # parts) pos =
        color_ready cp am cd dcid (fst (parts ! k'))"
      unfolding p by (simp only: resolve_attr.simps if_False)
    with Suc show ?thesis by simp
  qed
qed

text \<open>
  C1 (as the code has it). For every line, list of format parts and position, the
  attribute handed to the window for that position is the one computed from the first
  format part in list order with \<open>start \<le> pos < end\<close>: the loop leaves at the first
  match, so an earlier entry has precedence over a later one. When no part covers the
  position it is the default attribute of the line. Every character of the line up to
  the width gets one window call with that attribute.
\<close>

theorem first_covering_span_wins:
  "(\<forall>k<length parts. covers pos (parts ! k) \<and> (\<forall>j<k. \<not> covers pos (parts ! j)) \<longrightarrow>
      resolve_attr color_pair attrib_map color_default default_color_id parts pos =
        color_ready color_pair attrib_map color_default default_color_id (fst (parts ! k))) \<and>
   ((\<forall>part\<in>set parts. \<not> covers pos part) \<longrightarrow>
      resolve_attr color_pair attrib_map color_default default_color_id parts pos =
        default_color color_pair attrib_map default_color_id) \<and>
   (\<forall>p<min (length line) w.
      draw_line_chars color_pair attrib_map color_default default_color_id parts y w line ! p =
        safe_insch y (int p) (line ! p)
          (resolve_attr color_pair attrib_map color_default default_color_id parts (int p)))"
  by (simp add: resolve_attr_first resolve_attr_none draw_line_chars_def)

theorem first_covering_span_wins_witness:
  "resolve_attr ncurses_color_pair (replicate 256 0) 0 0 [(1, 2, 5), (2, 0, 5), (3, 0, 5)] 1 =
     color_ready ncurses_color_pair (replicate 256 0) 0 0 2 \<and>
   resolve_attr ncurses_color_pair (replicate 256 0) 0 0 [(1, 2, 5), (2, 0, 5), (3, 0, 5)] 7 =
     default_color ncurses_color_pair (replicate 256 0) 0 \<and>
   draw_line_chars ncurses_color_pair (replicate 256 0) 0 0 [(1, 2, 5), (2, 0, 5), (3, 0, 5)]
     4 80 [97, 98] ! 1 =
     safe_insch 4 1 98 (resolve_attr ncurses_color_pair (replicate 256 0) 0 0
       [(1, 2, 5), (2, 0, 5), (3, 0, 5)] 1)"
proof -
  let ?parts = "[(1, 2, 5), (2, 0, 5), (3, 0, 5)] :: format_part list"
  note t = first_covering_span_wins [of ?parts _ ncurses_color_pair "replicate 256 0" 0 0
      "[97, 98]" 80 4]
  have a: "resolve_attr ncurses_color_pair (replicate 256 0) 0 0 ?parts 1 =
      color_ready ncurses_color_pair (replicate 256 0) 0 0 (fst (?parts ! 1))"
    using t [of 1, THEN conjunct1, rule_format, of 1] by (simp add: covers_def)
  have b: "resolve_attr ncurses_color_pair (replicate 256 0) 0 0 ?parts 7 =
      default_color ncurses_color_pair (replicate 256 0) 0"
    using t [of 7, THEN conjunct2, THEN conjunct1] by (simp add: covers_def)
  have c: "draw_line_chars ncurses_color_pair (replicate 256 0) 0 0 ?parts 4 80 [97, 98] ! 1 =
     safe_insch 4 1 98 (resolve_attr ncurses_color_pair (replicate 256 0) 0 0 ?parts 1)"
    using t [of 0, THEN conjunct2, THEN conjunct2, rule_format, of 1] by simp
  from a b c show ?thesis by simp
qed

theorem later_span_does_not_win_counterexample:
  "resolve_attr ncurses_color_pair (replicate 256 0) 0 0 [(1, 0, 5), (2, 0, 5)] 0 =
     color_ready ncurses_color_pair (replicate 256 0) 0 0 1 \<and>
   color_ready ncurses_color_pair (replicate 256 0) 0 0 1 \<noteq>
     color_ready ncurses_color_pair (replicate 256 0) 0 0 2"
  by (simp add: color_ready_def ncurses_color_pair_def)

section \<open>Properties of the cell buffer\<close>

lemma length_put_line [simp]: "length (put_line rb x line attr m) = length rb"
  unfolding put_line_def by (induction m) simp_all

lemma length_put_spaces [simp]: "length (put_spaces rb x attr a b) = length rb"
  unfolding put_spaces_def by (induction b) simp_all

lemma put_line_nth:
  "k < length rb \<Longrightarrow>
   put_line rb x line attr m ! k = (if x \<le> k \<and> k < x + m then (line ! (k - x), attr) else rb ! k)"
proof (induction m)
  case 0
  then show ?case by (auto simp add: put_line_def)
next
  case (Suc m)
  have "put_line rb x line attr (Suc m) = (put_line rb x line attr m)[x + m := (line ! m, attr)]"
    by (simp add: put_line_def)
  then have "put_line rb x line attr (Suc m) ! k =
      (if k = x + m then (line ! m, attr) else put_line rb x line attr m ! k)"
    using Suc.prems by (simp add: nth_list_update)
  also have "\<dots> = (if x \<le> k \<and> k < x + Suc m then (line ! (k - x), attr) else rb ! k)"
  proof (cases "k = x + m")
    case True
    then show ?thesis by simp
  next
    case False
    with Suc.IH [OF Suc.prems] show ?thesis by (simp add: less_Suc_eq)
  qed
  finally show ?case .
qed

lemma put_spaces_nth:
  "k < length rb \<Longrightarrow>
   put_spaces rb x attr a b ! k = (if x + a \<le> k \<and> k < x + b then (32, attr) else rb ! k)"
proof (induction b)
  case 0
  then show ?case by (auto simp add: put_spaces_def)
next
  case (Suc b)
  show ?case
  proof (cases "a \<le> b")
    case True
    then have "put_spaces rb x attr a (Suc b) = (put_spaces rb x attr a b)[x + b := (32, attr)]"
      by (simp add: put_spaces_def)
    then have "put_spaces rb x attr a (Suc b) ! k =
        (if k = x + b then (32, attr) else put_spaces rb x attr a b ! k)"
      using Suc.prems by (simp add: nth_list_update)
    also have "\<dots> = (if x + a \<le> k \<and> k < x + Suc b then (32, attr) else rb ! k)"
    proof (cases "k = x + b")
      case True
      with \<open>a \<le> b\<close> show ?thesis by simp
    next
      case False
      with Suc.IH [OF Suc.prems] show ?thesis by (simp add: less_Suc_eq)
    qed
    finally show ?thesis .
  next
    case False
    with Suc.prems show ?thesis by (auto simp add: put_spaces_def)
  qed
qed

lemma split_nl_no_nl: "10 \<notin> set line \<Longrightarrow> split_nl (line @ [10]) = [line, []]"
  by (induction line) auto

lemma touched_rows_done: "length lines \<le> i \<Longrightarrow> touched_rows lines nlines ncols y x i = {}"
  by (auto simp: touched_rows_def)

lemma touched_rows_break: "nlines \<le> y + i \<Longrightarrow> touched_rows lines nlines ncols y x i = {}"
  by (auto simp: touched_rows_def)

lemma touched_rows_continue: "ncols \<le> x \<Longrightarrow> touched_rows lines nlines ncols y x i = {}"
  by (auto simp: touched_rows_def)

lemma touched_rows_step:
  assumes "i < length lines" "y + i < nlines" "x < ncols"
  shows "touched_rows lines nlines ncols y x i =
           insert (y + i) (touched_rows lines nlines ncols y x (i + 1))"
proof -
  have "{y + k |k. i \<le> k \<and> k < length lines \<and> y + k < nlines} =
        insert (y + i) {y + k |k. i + 1 \<le> k \<and> k < length lines \<and> y + k < nlines}"
    using assms(1,2) by (auto simp: Suc_le_eq le_less)
  with assms(3) show ?thesis by (simp add: touched_rows_def)
qed

lemma insstr_loop_dirty:
  "snd (insstr_loop lines buffer nlines ncols d y x attr i) =
     d \<union> touched_rows lines nlines ncols y x i"
proof (induction lines buffer nlines ncols d y x attr i rule: insstr_loop.induct)
  case (1 lines buffer nlines ncols d y x attr i)
  show ?case
  proof (cases "i < length lines")
    case False
    then show ?thesis
      by (subst insstr_loop.simps) (simp add: touched_rows_done)
  next
    case in_range: True
    show ?thesis
    proof (cases "nlines \<le> y + i")
      case True
      with in_range show ?thesis
        by (subst insstr_loop.simps) (simp add: touched_rows_break)
    next
      case row_ok: False
      show ?thesis
      proof (cases "int ncols - int x \<le> 0")
        case True
        then have t: "touched_rows lines nlines ncols y x i = {}"
          "touched_rows lines nlines ncols y x (i + 1) = {}"
          by (simp_all add: touched_rows_continue)
        have "insstr_loop lines buffer nlines ncols d y x attr i =
              insstr_loop lines buffer nlines ncols d y x attr (i + 1)"
          using in_range row_ok True by (subst insstr_loop.simps) (simp add: Let_def)
        with "1.IH"(1) [OF in_range refl refl _ refl refl True] row_ok t show ?thesis
          by simp
      next
        case False
        then have x: "x < ncols" by simp
        define min_len where "min_len = (if int ncols - int x < int (length (lines ! i))
          then nat (int ncols - int x) else length (lines ! i))"
        define written where "written = put_line (buffer ! (y + i)) x (lines ! i) attr min_len"
        define padded where "padded = (if i < length lines - 1 \<and> int min_len < int ncols - int x
          then put_spaces written x attr min_len (nat (int ncols - int x)) else written)"
        have "insstr_loop lines buffer nlines ncols d y x attr i =
              insstr_loop lines (buffer[y + i := padded]) nlines ncols (insert (y + i) d) y x attr
                (i + 1)"
          using in_range row_ok False
          by (subst insstr_loop.simps) (simp add: Let_def min_len_def written_def padded_def)
        moreover have "snd (insstr_loop lines (buffer[y + i := padded]) nlines ncols
            (insert (y + i) d) y x attr (i + 1)) =
            insert (y + i) d \<union> touched_rows lines nlines ncols y x (i + 1)"
          using row_ok
          by (intro "1.IH"(2) [OF in_range refl refl _ refl refl False min_len_def written_def
                padded_def]) simp
        ultimately show ?thesis
          using touched_rows_step [of i lines y nlines x ncols] in_range row_ok x by simp
      qed
    qed
  qed
qed

lemma insstr_loop_changed_dirty:
  "fst (insstr_loop lines buffer nlines ncols d y x attr i) ! r \<noteq> buffer ! r \<Longrightarrow>
   r \<in> snd (insstr_loop lines buffer nlines ncols d y x attr i)"
proof (induction lines buffer nlines ncols d y x attr i rule: insstr_loop.induct)
  case (1 lines buffer nlines ncols d y x attr i)
  show ?case
  proof (cases "i < length lines")
    case False
    with "1.prems" show ?thesis
      by (subst (asm) insstr_loop.simps) simp
  next
    case in_range: True
    show ?thesis
    proof (cases "nlines \<le> y + i")
      case True
      with in_range "1.prems" show ?thesis
        by (subst (asm) insstr_loop.simps) simp
    next
      case row_ok: False
      show ?thesis
      proof (cases "int ncols - int x \<le> 0")
        case True
        have e: "insstr_loop lines buffer nlines ncols d y x attr i =
              insstr_loop lines buffer nlines ncols d y x attr (i + 1)"
          using in_range row_ok True by (subst insstr_loop.simps) (simp add: Let_def)
        with "1.IH"(1) [OF in_range refl refl _ refl refl True] row_ok "1.prems" show ?thesis
          by simp
      next
        case False
        define min_len where "min_len = (if int ncols - int x < int (length (lines ! i))
          then nat (int ncols - int x) else length (lines ! i))"
        define written where "written = put_line (buffer ! (y + i)) x (lines ! i) attr min_len"
        define padded where "padded = (if i < length lines - 1 \<and> int min_len < int ncols - int x
          then put_spaces written x attr min_len (nat (int ncols - int x)) else written)"
        let ?next = "insstr_loop lines (buffer[y + i := padded]) nlines ncols (insert (y + i) d)
          y x attr (i + 1)"
        have e: "insstr_loop lines buffer nlines ncols d y x attr i = ?next"
          using in_range row_ok False
          by (subst insstr_loop.simps) (simp add: Let_def min_len_def written_def padded_def)
        have ih: "fst ?next ! r \<noteq> buffer[y + i := padded] ! r \<Longrightarrow> r \<in> snd ?next"
          using row_ok
          by (intro "1.IH"(2) [OF in_range refl refl _ refl refl False min_len_def written_def
                padded_def]) simp_all
        show ?thesis
        proof (cases "r = y + i")
          case True
          then have "r \<in> snd ?next" by (simp add: insstr_loop_dirty)
          with e show ?thesis by simp
        next
          case False
          with "1.prems" e have "fst ?next ! r \<noteq> buffer[y + i := padded] ! r" by simp
          from ih [OF this] e show ?thesis by simp
        qed
      qed
    qed
  qed
qed

text \<open>
  C6. Writing one line (no line feed inside) that is shorter than the row, at column 0,
  with an attribute and followed by a line feed: the row then holds the characters of
  the line with that attribute, and every cell to the right of them holds a space with
  that same attribute, up to the edge of the row.
\<close>

theorem short_line_pads_row:
  assumes "y < nlines" and "y < length buffer" and "length (buffer ! y) = ncols"
    and "length line < ncols" and "10 \<notin> set line"
  shows "\<forall>j<ncols.
           fst (insstr buffer nlines ncols dirty_lines y 0 (line @ [10]) attr) ! y ! j =
             (if j < length line then (line ! j, attr) else (32, attr))"
proof -
  define written where "written = put_line (buffer ! y) 0 line attr (length line)"
  define padded where "padded = put_spaces written 0 attr (length line) ncols"
  let ?b1 = "buffer[y := padded]" and ?d1 = "insert y dirty_lines"
  have first: "insstr_loop [line, []] buffer nlines ncols dirty_lines y 0 attr 0 =
      insstr_loop [line, []] ?b1 nlines ncols ?d1 y 0 attr 1"
    using assms(1,4) by (subst insstr_loop.simps) (simp add: Let_def written_def padded_def)
  have second: "fst (insstr_loop [line, []] ?b1 nlines ncols ?d1 y 0 attr 1) ! y = padded"
  proof (cases "nlines \<le> y + 1")
    case True
    then show ?thesis
      using assms(2) by (subst insstr_loop.simps) simp
  next
    case False
    have "insstr_loop [line, []] ?b1 nlines ncols ?d1 y 0 attr 1 =
        insstr_loop [line, []] (?b1[y + 1 := put_line (?b1 ! (y + 1)) 0 [] attr 0]) nlines ncols
          (insert (y + 1) ?d1) y 0 attr 2"
      using False assms(4) by (subst insstr_loop.simps) (simp add: Let_def numeral_2_eq_2)
    also have "\<dots> = (?b1[y + 1 := put_line (?b1 ! (y + 1)) 0 [] attr 0], insert (y + 1) ?d1)"
      by (subst insstr_loop.simps) simp
    finally show ?thesis using assms(2) by simp
  qed
  have row: "fst (insstr buffer nlines ncols dirty_lines y 0 (line @ [10]) attr) ! y = padded"
    using first second assms(5) by (simp add: insstr_def split_nl_no_nl)
  have "padded ! j = (if j < length line then (line ! j, attr) else (32, attr))" if "j < ncols" for j
    using that assms(3) by (simp add: padded_def written_def put_spaces_nth put_line_nth)
  with row show ?thesis by simp
qed

theorem short_line_pads_row_witness:
  "fst (insstr [[(0, 0), (0, 0), (0, 0)], [(1, 1), (1, 1), (1, 1)]] 2 3 {} 0 0
          ([97] @ [10]) 7) ! 0 ! 0 = (97, 7) \<and>
   fst (insstr [[(0, 0), (0, 0), (0, 0)], [(1, 1), (1, 1), (1, 1)]] 2 3 {} 0 0
          ([97] @ [10]) 7) ! 0 ! 1 = (32, 7) \<and>
   fst (insstr [[(0, 0), (0, 0), (0, 0)], [(1, 1), (1, 1), (1, 1)]] 2 3 {} 0 0
          ([97] @ [10]) 7) ! 0 ! 2 = (32, 7)"
proof -
  have "\<forall>j<3. fst (insstr [[(0, 0), (0, 0), (0, 0)], [(1, 1), (1, 1), (1, 1)]] 2 3 {} 0 0
      ([97] @ [10]) 7) ! 0 ! j = (if j < length [97::nat] then ([97] ! j, 7) else (32, 7))"
    by (rule short_line_pads_row) simp_all
  note cells = this [rule_format]
  from cells [of 0] cells [of 1] cells [of 2] show ?thesis
    by simp
qed

lemma step_keeps_changed_rows_dirty:
  assumes "changed_rows_dirty s"
  shows "changed_rows_dirty (step P nlines ncols s a)"
proof (cases a)
  case (Write y x str attr)
  obtain b d where r: "insstr (cells s) nlines ncols (dirty s) y x str attr = (b, d)"
    by (cases "insstr (cells s) nlines ncols (dirty s) y x str attr") auto
  have mono: "dirty s \<subseteq> d"
    using r insstr_loop_dirty [of "split_nl str" "cells s" nlines ncols "dirty s" y x attr 0]
    by (simp add: insstr_def)
  have chg: "row \<in> d" if "b ! row \<noteq> cells s ! row" for row
    using r that
      insstr_loop_changed_dirty [of "split_nl str" "cells s" nlines ncols "dirty s" y x attr 0 row]
    by (simp add: insstr_def)
  have "row \<in> d" if "b ! row \<noteq> painted s ! row" for row
  proof (cases "b ! row = cells s ! row")
    case True
    with that assms mono show ?thesis by (auto simp: changed_rows_dirty_def)
  next
    case False
    then show ?thesis by (rule chg)
  qed
  then show ?thesis
    using Write r by (simp add: changed_rows_dirty_def)
next
  case (Paint order)
  then show ?thesis
    by (simp add: changed_rows_dirty_def render_def)
qed

lemma exec_keeps_changed_rows_dirty:
  "changed_rows_dirty s \<Longrightarrow> changed_rows_dirty (exec P nlines ncols s acts)"
  by (induction acts arbitrary: s) (simp_all add: step_keeps_changed_rows_dirty)

text \<open>
  C5 (as the code has it). Along every sequence of writes and render passes, every row
  whose cells differ from their contents at the last completed render pass is in the
  dirty set; and a write puts the index of every row it touches into the dirty set. The
  converse does not hold: \<open>insstr\<close> marks a row without comparing, so a row written with
  the contents it already had is dirty and unchanged.
\<close>

theorem dirty_set_covers_changed_rows:
  assumes "changed_rows_dirty s0"
  shows "changed_rows_dirty (exec P nlines ncols s0 acts) \<and>
         (\<forall>i<length (split_nl text). y + i < nlines \<and> x < ncols \<longrightarrow>
            y + i \<in> dirty (step P nlines ncols (exec P nlines ncols s0 acts) (Write y x text attr)))"
proof -
  let ?s = "exec P nlines ncols s0 acts"
  have "y + i \<in> dirty (step P nlines ncols ?s (Write y x text attr))"
    if "i < length (split_nl text)" "y + i < nlines \<and> x < ncols" for i
  proof -
    have "y + i \<in> touched_rows (split_nl text) nlines ncols y x 0"
      using that by (auto simp: touched_rows_def)
    then have "y + i \<in> snd (insstr (cells ?s) nlines ncols (dirty ?s) y x text attr)"
      by (simp add: insstr_def insstr_loop_dirty)
    then show ?thesis by (simp add: case_prod_beta)
  qed
  with exec_keeps_changed_rows_dirty [OF assms] show ?thesis by blast
qed

theorem dirty_set_covers_changed_rows_witness:
  "changed_rows_dirty
     (exec example_painter 1 2
        \<lparr>cells = [[(32, 0), (32, 0)]], dirty = {}, painted = [[(32, 0), (32, 0)]]\<rparr>
        [Write 0 0 [97] 1, Paint [0]]) \<and>
   0 \<in> dirty
     (step example_painter 1 2
        (exec example_painter 1 2
           \<lparr>cells = [[(32, 0), (32, 0)]], dirty = {}, painted = [[(32, 0), (32, 0)]]\<rparr>
           [Write 0 0 [97] 1, Paint [0]])
        (Write 0 0 [98] 1))"
proof -
  have h: "changed_rows_dirty
      \<lparr>cells = [[(32, 0), (32, 0)]], dirty = {}, painted = [[(32, 0), (32, 0)]]\<rparr>"
    by (simp add: changed_rows_dirty_def)
  from dirty_set_covers_changed_rows [OF h, of example_painter 1 2 "[Write 0 0 [97] 1, Paint [0]]"
      "[98]" 0 0 1]
  show ?thesis by simp
qed

theorem unchanged_row_is_dirty_counterexample:
  "0 \<in> dirty (exec example_painter 1 1
          \<lparr>cells = [[(32, 0)]], dirty = {0}, painted = [[(0, 0)]]\<rparr>
          [Paint [0], Write 0 0 [32] 0]) \<and>
   cells (exec example_painter 1 1
          \<lparr>cells = [[(32, 0)]], dirty = {0}, painted = [[(0, 0)]]\<rparr>
          [Paint [0], Write 0 0 [32] 0]) ! 0 =
   painted (exec example_painter 1 1
          \<lparr>cells = [[(32, 0)]], dirty = {0}, painted = [[(0, 0)]]\<rparr>
          [Paint [0], Write 0 0 [32] 0]) ! 0"
  by (simp add: render_def insstr_def insstr_loop.simps put_line_def)

section \<open>Properties of the surface painter\<close>

lemma emojis_before_le: "emojis_before row i \<le> i"
  by (induction i) auto

lemma emojis_before_run:
  "i - emojis_before row i \<le> j \<Longrightarrow> j < i \<Longrightarrow> is_emoji (fst (row ! j))"
proof (induction i)
  case 0
  then show ?case by simp
next
  case (Suc i)
  show ?case
  proof (cases "is_emoji (fst (row ! i))")
    case True
    show ?thesis
    proof (cases "j = i")
      case True
      with \<open>is_emoji (fst (row ! i))\<close> show ?thesis by simp
    next
      case False
      with Suc.prems True emojis_before_le [of row i] have "i - emojis_before row i \<le> j" "j < i"
        by auto
      then show ?thesis by (rule Suc.IH)
    qed
  next
    case False
    with Suc.prems show ?thesis by simp
  qed
qed

lemma emojis_before_start:
  "emojis_before row i < i \<Longrightarrow> \<not> is_emoji (fst (row ! (i - emojis_before row i - 1)))"
proof (induction i)
  case 0
  then show ?case by simp
next
  case (Suc i)
  show ?case
  proof (cases "is_emoji (fst (row ! i))")
    case True
    with Suc.prems have "emojis_before row i < i" by simp
    from Suc.IH [OF this] True show ?thesis by simp
  next
    case False
    then show ?thesis by simp
  qed
qed

lemma collect_after_update:
  "m < k \<Longrightarrow> collect (row[m := c]) ncols attr k dx tb = collect row ncols attr k dx tb"
proof (induction row ncols attr k dx tb rule: collect.induct)
  case (1 row ncols attr k dx tb)
  show ?case
  proof (cases "k < ncols")
    case False
    then show ?thesis by (simp add: collect.simps)
  next
    case True
    obtain ch attr2 where cell: "row ! k = (ch, attr2)" by (cases "row ! k") auto
    have same: "row[m := c] ! k = (ch, attr2)" using "1.prems" cell by simp
    show ?thesis
    proof (cases "attr2 \<noteq> attr \<or> is_emoji ch")
      case True
      with \<open>k < ncols\<close> cell same show ?thesis by (simp add: collect.simps)
    next
      case False
      have "collect (row[m := c]) ncols attr (k + 1) (dx + 1) (tb @ [ch]) =
            collect row ncols attr (k + 1) (dx + 1) (tb @ [ch])"
        using "1.prems" by (intro "1.IH" [OF \<open>k < ncols\<close> cell [symmetric] False]) simp
      with \<open>k < ncols\<close> cell same False show ?thesis
        by (subst (1 2) collect.simps) simp
    qed
  qed
qed

lemma collect_before_emoji:
  assumes "k \<le> e" and "e < m" and "is_emoji (fst (row ! e))"
  shows "collect (row[m := c]) ncols attr k dx tb = collect row ncols attr k dx tb \<and>
         fst (collect row ncols attr k dx tb) \<le> e"
  using assms
proof (induction row ncols attr k dx tb rule: collect.induct)
  case (1 row ncols attr k dx tb)
  show ?case
  proof (cases "k < ncols")
    case False
    with "1.prems" show ?thesis by (simp add: collect.simps)
  next
    case True
    obtain ch attr2 where cell: "row ! k = (ch, attr2)" by (cases "row ! k") auto
    have same: "row[m := c] ! k = (ch, attr2)" using "1.prems" cell by simp
    show ?thesis
    proof (cases "attr2 \<noteq> attr \<or> is_emoji ch")
      case True
      with \<open>k < ncols\<close> cell same "1.prems" show ?thesis by (simp add: collect.simps)
    next
      case False
      with cell "1.prems" have "k \<noteq> e" by auto
      with "1.prems" have "k + 1 \<le> e" by simp
      from "1.IH" [OF \<open>k < ncols\<close> cell [symmetric] False this "1.prems"(2,3)]
      have "collect (row[m := c]) ncols attr (k + 1) (dx + 1) (tb @ [ch]) =
            collect row ncols attr (k + 1) (dx + 1) (tb @ [ch])"
        and "fst (collect row ncols attr (k + 1) (dx + 1) (tb @ [ch])) \<le> e"
        by simp_all
      with \<open>k < ncols\<close> cell same False show ?thesis
        by (subst (1 2 3) collect.simps) simp
    qed
  qed
qed

lemma scan_row_after_update:
  "m < k \<Longrightarrow> scan_row P ncols (row[m := c]) y k dx = scan_row P ncols row y k dx"
proof (induction P ncols row y k dx rule: scan_row.induct)
  case (1 P ncols row y k dx)
  show ?case
  proof (cases "k < ncols")
    case False
    then show ?thesis by (simp add: scan_row.simps)
  next
    case True
    obtain ch attr where cell: "row ! k = (ch, attr)" by (cases "row ! k") auto
    have same: "row[m := c] ! k = (ch, attr)" using "1.prems" cell by simp
    show ?thesis
    proof (cases "is_emoji ch")
      case True
      have "scan_row P ncols (row[m := c]) y (k + 2) (dx + 2) = scan_row P ncols row y (k + 2) (dx + 2)"
        using "1.prems" by (intro "1.IH"(1) [OF \<open>k < ncols\<close> cell [symmetric] True]) simp
      with \<open>k < ncols\<close> cell same True show ?thesis
        by (subst (1 2) scan_row.simps) simp
    next
      case False
      obtain i' dx' tb where col: "collect row ncols attr k dx [] = (i', dx', tb)"
        by (cases "collect row ncols attr k dx []") auto
      have col': "collect (row[m := c]) ncols attr k dx [] = (i', dx', tb)"
        using collect_after_update [OF "1.prems"] col by simp
      show ?thesis
      proof (cases "tb = []")
        case True
        have "scan_row P ncols (row[m := c]) y (k + 1) (dx + 1) =
              scan_row P ncols row y (k + 1) (dx + 1)"
          using "1.prems"
          by (intro "1.IH"(2) [OF \<open>k < ncols\<close> cell [symmetric] False col [symmetric] refl True])
             simp
        with \<open>k < ncols\<close> cell same False col col' True show ?thesis
          by (subst (1 2) scan_row.simps) simp
      next
        case nonempty: False
        have "k \<le> i'" using collect_advances [OF col] by simp
        with "1.prems" have "m < i'" by simp
        then have "scan_row P ncols (row[m := c]) y i' dx' = scan_row P ncols row y i' dx'"
          by (intro "1.IH"(3) [OF \<open>k < ncols\<close> cell [symmetric] False col [symmetric] refl nonempty])
        with \<open>k < ncols\<close> cell same False col col' nonempty show ?thesis
          by (subst (1 2) scan_row.simps) simp
      qed
    qed
  qed
qed

lemma scan_row_emoji_run:
  assumes "\<forall>j. s \<le> j \<and> j \<le> s + 2 * n \<longrightarrow> is_emoji (fst (row ! j))"
  shows "scan_row P ncols (row[s + 2 * n + 1 := c]) y s dx = scan_row P ncols row y s dx"
  using assms
proof (induction n arbitrary: s dx)
  case 0
  obtain ch attr where cell: "row ! s = (ch, attr)" by (cases "row ! s") auto
  with 0 have em: "is_emoji ch" by force
  have same: "row[s + 1 := c] ! s = (ch, attr)" using cell by simp
  have "scan_row P ncols (row[s + 1 := c]) y (s + 2) (dx + 2) =
        scan_row P ncols row y (s + 2) (dx + 2)"
    by (rule scan_row_after_update) simp
  with cell same em show ?case
    by (subst (1 2) scan_row.simps) simp
next
  case (Suc n)
  obtain ch attr where cell: "row ! s = (ch, attr)" by (cases "row ! s") auto
  with Suc.prems have em: "is_emoji ch" by force
  have same: "row[s + 2 * Suc n + 1 := c] ! s = (ch, attr)" using cell by simp
  have "scan_row P ncols (row[(s + 2) + 2 * n + 1 := c]) y (s + 2) (dx + 2) =
        scan_row P ncols row y (s + 2) (dx + 2)"
    using Suc.prems by (intro Suc.IH) auto
  then have "scan_row P ncols (row[s + 2 * Suc n + 1 := c]) y (s + 2) (dx + 2) =
        scan_row P ncols row y (s + 2) (dx + 2)"
    by (simp add: add.assoc)
  with cell same em show ?case
    by (subst (1 2) scan_row.simps) simp
qed

lemma scan_row_reaches:
  assumes "k \<le> s" and "s < m" and "is_emoji (fst (row ! s))"
    and "s = 0 \<or> \<not> is_emoji (fst (row ! (s - 1)))"
    and "\<And>dx. scan_row P ncols (row[m := c]) y s dx = scan_row P ncols row y s dx"
  shows "scan_row P ncols (row[m := c]) y k dx = scan_row P ncols row y k dx"
  using assms
proof (induction P ncols row y k dx rule: scan_row.induct)
  case (1 P ncols row y k dx)
  show ?case
  proof (cases "k = s")
    case True
    with "1.prems"(5) show ?thesis by simp
  next
    case False
    with "1.prems" have ks: "k < s" by simp
    show ?thesis
    proof (cases "k < ncols")
      case False
      then show ?thesis by (simp add: scan_row.simps)
    next
      case True
      obtain ch attr where cell: "row ! k = (ch, attr)" by (cases "row ! k") auto
      have same: "row[m := c] ! k = (ch, attr)" using "1.prems"(2) ks cell by simp
      show ?thesis
      proof (cases "is_emoji ch")
        case em: True
        have "k + 1 \<noteq> s"
        proof
          assume "k + 1 = s"
          with "1.prems"(4) cell em show False by auto
        qed
        with ks have "k + 2 \<le> s" by simp
        from "1.IH"(1) [OF True cell [symmetric] em this "1.prems"(2,3,4,5)]
        have "scan_row P ncols (row[m := c]) y (k + 2) (dx + 2) =
              scan_row P ncols row y (k + 2) (dx + 2)" .
        with True cell same em show ?thesis
          by (subst (1 2) scan_row.simps) simp
      next
        case False
        obtain i' dx' tb where col: "collect row ncols attr k dx [] = (i', dx', tb)"
          by (cases "collect row ncols attr k dx []") auto
        from collect_before_emoji [OF "1.prems"(1,2,3), of c ncols attr dx "[]"] col
        have col': "collect (row[m := c]) ncols attr k dx [] = (i', dx', tb)" and le: "i' \<le> s"
          by simp_all
        show ?thesis
        proof (cases "tb = []")
          case empty: True
          from ks have "k + 1 \<le> s" by simp
          from "1.IH"(2) [OF True cell [symmetric] False col [symmetric] refl empty this
              "1.prems"(2,3,4,5)]
          have "scan_row P ncols (row[m := c]) y (k + 1) (dx + 1) =
                scan_row P ncols row y (k + 1) (dx + 1)" .
          with True cell same False col col' empty show ?thesis
            by (subst (1 2) scan_row.simps) simp
        next
          case nonempty: False
          from "1.IH"(3) [OF True cell [symmetric] False col [symmetric] refl nonempty le
              "1.prems"(2,3,4,5)]
          have "scan_row P ncols (row[m := c]) y i' dx' = scan_row P ncols row y i' dx'" .
          with True cell same False col col' nonempty show ?thesis
            by (subst (1 2) scan_row.simps) simp
        qed
      qed
    qed
  qed
qed

lemma scan_row_skips_cell_after_emoji:
  assumes "is_emoji (fst (row ! i))" and "even (emojis_before row i)"
  shows "scan_row P ncols (row[i + 1 := c]) y 0 0 = scan_row P ncols row y 0 0"
proof -
  define n where "n = emojis_before row i div 2"
  define s where "s = i - emojis_before row i"
  have i: "i = s + 2 * n"
    using assms(2) emojis_before_le [of row i] by (auto simp: n_def s_def)
  have run: "\<forall>j. s \<le> j \<and> j \<le> s + 2 * n \<longrightarrow> is_emoji (fst (row ! j))"
  proof (intro allI impI)
    fix j assume j: "s \<le> j \<and> j \<le> s + 2 * n"
    show "is_emoji (fst (row ! j))"
    proof (cases "j = i")
      case True
      with assms(1) show ?thesis by simp
    next
      case False
      with j i have "s \<le> j" "j < i" by linarith+
      then have "i - emojis_before row i \<le> j" "j < i" unfolding s_def by this+
      then show ?thesis by (rule emojis_before_run)
    qed
  qed
  have first: "is_emoji (fst (row ! s))" using run by simp
  have start: "s = 0 \<or> \<not> is_emoji (fst (row ! (s - 1)))"
  proof (cases "s = 0")
    case True
    then show ?thesis by simp
  next
    case False
    then have "emojis_before row i < i" by (simp add: s_def)
    from emojis_before_start [OF this] show ?thesis by (simp add: s_def)
  qed
  have tail: "scan_row P ncols (row[i + 1 := c]) y s dx = scan_row P ncols row y s dx" for dx
    using scan_row_emoji_run [OF run, of P ncols c y dx] by (simp add: i)
  have "s < i + 1" using i by simp
  from scan_row_reaches [OF _ this first start tail, of 0] show ?thesis by simp
qed

text \<open>
  C10 (as the code has it). Let column \<open>i\<close> of a row hold an emoji glyph that the scan
  reaches as an emoji, which is the case when the number of emoji cells directly before
  column \<open>i\<close> is even. Then the draw operations of \<open>render\<close> do not depend on the cell
  at column \<open>i + 1\<close>: the scan moves two buffer columns on and never reads that cell.
  An emoji cell preceded by an odd number of emoji cells is itself the cell that is
  stepped over, and the cell after it is painted.
\<close>

theorem cell_after_reached_emoji_not_painted:
  assumes "is_emoji (fst (buffer ! y ! i))" and "even (emojis_before (buffer ! y) i)"
  shows "render P (buffer[y := (buffer ! y)[i + 1 := c]]) ncols order =
         render P buffer ncols order"
proof -
  let ?b = "buffer[y := (buffer ! y)[i + 1 := c]]"
  have "scan_row P ncols (?b ! r) r 0 0 = scan_row P ncols (buffer ! r) r 0 0" for r
  proof (cases "r = y \<and> y < length buffer")
    case True
    with scan_row_skips_cell_after_emoji [OF assms] show ?thesis by simp
  next
    case False
    then have "?b ! r = buffer ! r"
      by (cases "y < length buffer") (auto simp: nth_list_update list_update_beyond)
    then show ?thesis by simp
  qed
  then show ?thesis by (simp add: render_def)
qed

theorem cell_after_reached_emoji_not_painted_witness:
  "render example_painter
     ([[(128512, 0), (128512, 0), (128512, 0), (97, 0)]]
        [0 := ([[(128512, 0), (128512, 0), (128512, 0), (97, 0)]] ! 0)[2 + 1 := (98, 5)]]) 4 [0] =
   render example_painter [[(128512, 0), (128512, 0), (128512, 0), (97, 0)]] 4 [0]"
  using cell_after_reached_emoji_not_painted
    [of "[[(128512, 0), (128512, 0), (128512, 0), (97, 0)]]" 0 2 example_painter "(98, 5)" 4 "[0]"]
  by (simp add: is_emoji_def numeral_2_eq_2)

theorem cell_after_skipped_emoji_painted_counterexample:
  "is_emoji (fst ([(128512, 0), (128512, 0), (97, 0)] ! 1)) \<and>
   render example_painter [[(128512, 0), (128512, 0), (97, 0)]] 3 [0] \<noteq>
   render example_painter [[(128512, 0), (128512, 0), (98, 0)]] 3 [0]"
  by (simp add: is_emoji_def render_def scan_row.simps collect.simps emoji_ops_def text_ops_def
      pair_colors_def example_painter_def)

text \<open>
  C4 (the code at the failing input). With the italic flag alone the second branch of the
  chain tests the italic flag twice, so its inner \<open>else\<close>, the only place that assigns
  \<open>font_italic\<close>, is never reached: italic alone selects the bold-italic font, and no
  flag value selects the italic font. A cell with attribute \<open>A_ITALIC\<close> is rendered
  with the bold-italic font.
\<close>

theorem italic_alone_selects_bold_italic:
  "select_font A_ITALIC = Font_bold_italic \<and> select_font flags \<noteq> Font_italic \<and>
   render example_painter [[(97, A_ITALIC)]] 1 [0] =
     ([Fill (0, 0, 0) (0, 0, 8, 16),
       Render_to Font_bold_italic False (0, 0) [97] (255, 255, 255)], {})"
proof -
  have "select_font A_ITALIC = Font_bold_italic"
    by (simp add: select_font_def A_ITALIC_def A_BOLD_def)
  moreover have "select_font flags \<noteq> Font_italic"
    by (simp add: select_font_def)
  moreover have "render example_painter [[(97, A_ITALIC)]] 1 [0] =
     ([Fill (0, 0, 0) (0, 0, 8, 16),
       Render_to Font_bold_italic False (0, 0) [97] (255, 255, 255)], {})"
    by (simp add: render_def scan_row.simps collect.simps text_ops_def pair_colors_def
        example_painter_def select_font_def is_emoji_def
        A_ITALIC_def A_BOLD_def A_STANDOUT_def A_UNDERLINE_def)
  ultimately show ?thesis by simp
qed

end
